theory Spec2Isabelle
  imports
    Complex_Main
    "HOL-Library.List_Lexorder"
    "HOL-Library.Char_ord"
    "HOL-Library.Multiset"
begin

section \<open>Data model\<close>

text \<open>
  A player is a JavaScript string. Strings are compared with \<open><\<close> when the scheduler
  builds the key of a pair; the model uses the lexicographic order on character lists.
  Nothing below depends on more than this order being linear.
\<close>

type_synonym player = string
type_synonym pair = "player \<times> player"

text \<open>
  The object literal \<open>{ A, B, group }\<close> of \<open>allMatches\<close>, and the scheduled match
  \<open>{ round, board, A, B, group }\<close>, which has the same three fields and two more.
\<close>

record candidate =
  A :: player
  B :: player
  group :: nat

record match = candidate +
  round :: nat
  board :: nat

text \<open>
  The numeric arguments arrive from form fields as strings. \<open>Number(x)\<close> is \<open>NaN\<close> or a
  number, whole or not; a number is modelled by its exact value. The model does not
  cover the infinities, which no number field holds. Arithmetic is exact in the model;
  in JavaScript it is exact on whole numbers below \<open>2^53\<close>, and a product or quotient
  of fractions is rounded to a double, which can only matter in \<open>capByBoards\<close>.
\<close>

datatype jsnumber = NaN | Num rat

definition orOne :: "jsnumber \<Rightarrow> rat" where
  \<comment> \<open>\<open>Number(x) || 1\<close>: \<open>NaN\<close> and \<open>0\<close> are falsy.\<close>
  "orOne x = (case x of NaN \<Rightarrow> 1 | Num q \<Rightarrow> if q = 0 then 1 else q)"

definition atLeastOne :: "jsnumber \<Rightarrow> rat" where
  \<comment> \<open>\<open>Math.max(1, Number(x) || 1)\<close>: a fraction above 1 stays a fraction\<close>
  "atLeastOne x = max 1 (orOne x)"

datatype error = TypeError

section \<open>scheduler.js\<close>

subsection \<open>splitIntoGroups\<close>

text \<open>
  \<open>Array.from({ length: g })\<close> makes \<open>floor(g)\<close> groups. \<open>i % g\<close> is the exact
  remainder; when it is not the index of a group, \<open>groups[i % g]\<close> is \<open>undefined\<close> and
  the call of \<open>push\<close> throws, which ends the \<open>forEach\<close>.
\<close>

definition remainder :: "nat \<Rightarrow> rat \<Rightarrow> rat" where
  \<comment> \<open>\<open>i % g\<close> for \<open>g > 0\<close>\<close>
  "remainder i g = of_nat i - g * of_int \<lfloor>of_nat i / g\<rfloor>"

definition pushTo :: "rat \<Rightarrow> player \<Rightarrow> player list list \<Rightarrow> error + player list list" where
  \<comment> \<open>\<open>groups[k].push(p)\<close>\<close>
  "pushTo k p groups =
     (if of_int \<lfloor>k\<rfloor> = k \<and> nat \<lfloor>k\<rfloor> < length groups
      then Inr (groups[nat \<lfloor>k\<rfloor> := groups ! nat \<lfloor>k\<rfloor> @ [p]])
      else Inl TypeError)"

definition splitIntoGroups :: "player list \<Rightarrow> jsnumber \<Rightarrow> error + player list list" where
  "splitIntoGroups players numGroups =
     (let g = atLeastOne numGroups in
      fold (\<lambda>(i, p) result.
              case result of Inl e \<Rightarrow> Inl e | Inr groups \<Rightarrow> pushTo (remainder i g) p groups)
        (enumerate 0 players) (Inr (replicate (nat \<lfloor>g\<rfloor>) [])))"

subsection \<open>roundRobinPairs\<close>

definition BYE :: player where
  "BYE = ''__BYE__''"

definition pairsOfRound :: "nat \<Rightarrow> player list \<Rightarrow> player list \<Rightarrow> pair list" where
  \<comment> \<open>the inner loop over \<open>i < half\<close>; \<open>a\<close> and \<open>b\<close> both have \<open>half\<close> elements\<close>
  "pairsOfRound half a b =
     filter (\<lambda>(p1, p2). p1 \<noteq> BYE \<and> p2 \<noteq> BYE) (map (\<lambda>i. (a ! i, b ! i)) [0..<half])"

definition rotateHalves :: "nat \<Rightarrow> player list \<Rightarrow> player list \<Rightarrow> player list \<times> player list" where
  \<comment> \<open>\<open>fixed = a[0]\<close> is \<open>take 1 a\<close>: the loop only runs when \<open>a\<close> is not empty\<close>
  "rotateHalves half a b =
     (let fixed = take 1 a;
          rest = drop 1 a @ take 1 b;
          newA = fixed @ take (half - 1) rest;
          newB = rev (drop (half - 1) rest @ drop 1 b)
      in (newA, newB))"

fun rrLoop :: "nat \<Rightarrow> nat \<Rightarrow> player list \<Rightarrow> player list \<Rightarrow> pair list list" where
  "rrLoop 0 half a b = []"
| "rrLoop (Suc k) half a b =
     pairsOfRound half a b #
       (case rotateHalves half a b of (newA, newB) \<Rightarrow> rrLoop k half newA newB)"

definition roundRobinPairs :: "player list \<Rightarrow> pair list list" where
  \<comment> \<open>the loop runs for \<open>r < n - 1\<close>: no time when \<open>n = 0\<close>, as with the truncating \<open>n - 1\<close>\<close>
  "roundRobinPairs grp =
     (let arr = (if length grp mod 2 = 1 then grp @ [BYE] else grp);
          n = length arr;
          half = n div 2;
          a = take half arr;
          b = rev (drop half arr)
      in rrLoop (n - 1) half a b)"

definition buildGroupPairings :: "player list list \<Rightarrow> pair list list list" where
  "buildGroupPairings groups = map roundRobinPairs groups"

subsection \<open>buildGlobalSchedule: the derived inputs\<close>

definition setAdd :: "'a list \<Rightarrow> 'a \<Rightarrow> 'a list" where
  \<comment> \<open>\<open>Set.prototype.add\<close>, the set kept in insertion order as \<open>Array.from\<close> reads it\<close>
  "setAdd s x = (if x \<in> set s then s else s @ [x])"

definition groupPlayers :: "pair list list \<Rightarrow> player list" where
  "groupPlayers gr = fold (\<lambda>r s. fold (\<lambda>(a, b) s. setAdd (setAdd s a) b) r s) gr []"

definition allPlayersOf :: "player list list \<Rightarrow> player list" where
  \<comment> \<open>\<open>Array.from(new Set(groups.flat()))\<close>\<close>
  "allPlayersOf groups = fold (\<lambda>p s. setAdd s p) (concat groups) []"

definition groupMatches :: "nat \<Rightarrow> player list \<Rightarrow> candidate list" where
  "groupMatches gi gPlayers =
     concat (map (\<lambda>i. map (\<lambda>j. \<lparr>A = gPlayers ! i, B = gPlayers ! j, group = gi + 1\<rparr>)
                          [i + 1..<length gPlayers])
                 [0..<length gPlayers])"

definition allMatchesOf :: "player list list \<Rightarrow> candidate list" where
  "allMatchesOf groups = concat (map (\<lambda>(gi, gPlayers). groupMatches gi gPlayers) (enumerate 0 groups))"

definition capByBoards :: "rat \<Rightarrow> rat \<Rightarrow> player list \<Rightarrow> int" where
  \<comment> \<open>the floor of the exact quotient, which is the computed one when the counts are whole\<close>
  "capByBoards boards totalRounds allPlayers =
     (let N = (if length allPlayers = 0 then 1 else length allPlayers)
      in \<lfloor>(boards * totalRounds * 2) / of_nat N\<rfloor>)"

definition capByOpponents :: "player list list \<Rightarrow> int" where
  \<comment> \<open>\<open>Math.min\<close> is only called on a list that is not empty\<close>
  "capByOpponents groups =
     (case map (\<lambda>g. max 0 (int (length g) - 1)) groups of
        [] \<Rightarrow> 0
      | c # cs \<Rightarrow> fold min cs c)"

definition startTarget :: "rat \<Rightarrow> rat \<Rightarrow> player list list \<Rightarrow> player list \<Rightarrow> rat" where
  \<comment> \<open>\<open>capByRounds\<close> is \<open>totalRounds\<close> as it is, so the target can start at a fraction\<close>
  "startTarget boards totalRounds groups allPlayers =
     max 0 (min (of_int (capByBoards boards totalRounds allPlayers))
                (min totalRounds (of_int (capByOpponents groups))))"

subsection \<open>buildGlobalSchedule: one attempt\<close>

record buildState =
  gamesPlayed :: "player \<Rightarrow> int"
  pairPlayed :: "string set"
  lastPlayedRound :: "player \<Rightarrow> nat"
  schedule :: "match list list"

text \<open>
  \<open>gamesPlayed\<close> and \<open>lastPlayedRound\<close> are objects with one entry, \<open>0\<close>, for each of
  \<open>allPlayers\<close>. They are read at the players of \<open>allMatches\<close> and of \<open>allPlayers\<close>
  only, where the entry exists, so the model takes total functions that start at \<open>0\<close>.
\<close>

definition initialState :: buildState where
  "initialState =
     \<lparr>gamesPlayed = (\<lambda>p. 0), pairPlayed = {}, lastPlayedRound = (\<lambda>p. 0), schedule = []\<rparr>"

definition pairKey :: "'a candidate_scheme \<Rightarrow> string" where
  "pairKey m = (if A m < B m then A m @ ''|'' @ B m else B m @ ''|'' @ A m)"

definition isCandidate :: "buildState \<Rightarrow> rat \<Rightarrow> candidate \<Rightarrow> bool" where
  \<comment> \<open>the predicate of \<open>allMatches.filter\<close>\<close>
  "isCandidate st targetGames m =
     (if pairKey m \<in> pairPlayed st then False
      else if of_int (gamesPlayed st (A m)) \<ge> targetGames then False
      else if of_int (gamesPlayed st (B m)) \<ge> targetGames then False
      else True)"

definition hadByePrev :: "nat \<Rightarrow> buildState \<Rightarrow> player \<Rightarrow> bool" where
  "hadByePrev r st p = (if r = 1 then False else lastPlayedRound st p \<noteq> r - 1)"

definition byeScore :: "nat \<Rightarrow> buildState \<Rightarrow> candidate \<Rightarrow> rat" where
  "byeScore r st m =
     (if hadByePrev r st (A m) then 1 else 0) + (if hadByePrev r st (B m) then 1 else 0)"

definition combinedNeed :: "rat \<Rightarrow> buildState \<Rightarrow> candidate \<Rightarrow> rat" where
  \<comment> \<open>\<open>d1\<close>, \<open>d2\<close> of the comparator\<close>
  "combinedNeed targetGames st m =
     (targetGames - of_int (gamesPlayed st (A m))) + (targetGames - of_int (gamesPlayed st (B m)))"

definition maxNeed :: "rat \<Rightarrow> buildState \<Rightarrow> candidate \<Rightarrow> rat" where
  \<comment> \<open>\<open>mx1\<close>, \<open>mx2\<close> of the comparator\<close>
  "maxNeed targetGames st m =
     max (targetGames - of_int (gamesPlayed st (A m))) (targetGames - of_int (gamesPlayed st (B m)))"

definition compareMatches :: "nat \<Rightarrow> rat \<Rightarrow> buildState \<Rightarrow> candidate \<Rightarrow> candidate \<Rightarrow> rat" where
  "compareMatches r targetGames st m1 m2 =
     (let byeScore1 = byeScore r st m1; byeScore2 = byeScore r st m2 in
      if byeScore2 \<noteq> byeScore1 then byeScore2 - byeScore1
      else
        let d1 = combinedNeed targetGames st m1; d2 = combinedNeed targetGames st m2 in
        if d2 \<noteq> d1 then d2 - d1
        else
          let mx1 = maxNeed targetGames st m1; mx2 = maxNeed targetGames st m2 in
          mx2 - mx1)"

text \<open>
  \<open>Array.prototype.sort\<close> is stable, and with a consistent comparator its result is
  the one stable arrangement; the model computes it by insertion. The comparator returns
  a negative number when its first argument goes first.
\<close>

fun insertBy :: "('a \<Rightarrow> 'a \<Rightarrow> rat) \<Rightarrow> 'a \<Rightarrow> 'a list \<Rightarrow> 'a list" where
  "insertBy c x [] = [x]"
| "insertBy c x (y # ys) = (if c x y \<le> 0 then x # y # ys else y # insertBy c x ys)"

definition arraySort :: "('a \<Rightarrow> 'a \<Rightarrow> rat) \<Rightarrow> 'a list \<Rightarrow> 'a list" where
  "arraySort c xs = foldr (insertBy c) xs []"

definition commitMatch :: "nat \<Rightarrow> candidate \<Rightarrow> buildState \<Rightarrow> buildState" where
  \<comment> \<open>the updates of the shared counters after a match is pushed\<close>
  "commitMatch r m st =
     (let gp1 = (gamesPlayed st)(A m := gamesPlayed st (A m) + 1);
          gp2 = gp1(B m := gp1 (B m) + 1);
          lp = (lastPlayedRound st)(A m := r, B m := r)
      in st\<lparr>gamesPlayed := gp2, lastPlayedRound := lp,
            pairPlayed := insert (pairKey m) (pairPlayed st)\<rparr>)"

fun selectLoop ::
  "rat \<Rightarrow> nat \<Rightarrow> candidate list \<Rightarrow> buildState \<times> player set \<times> match list
    \<Rightarrow> buildState \<times> player set \<times> match list" where
  "selectLoop boards r [] s = s"
| "selectLoop boards r (m # ms) (st, usedThisRound, rnd) =
     (if of_nat (length rnd) \<ge> boards then (st, usedThisRound, rnd)
      else if A m \<in> usedThisRound \<or> B m \<in> usedThisRound
        then selectLoop boards r ms (st, usedThisRound, rnd)
      else selectLoop boards r ms
        (commitMatch r m st,
         insert (B m) (insert (A m) usedThisRound),
         rnd @ [\<lparr>A = A m, B = B m, group = group m, round = r, board = length rnd + 1\<rparr>]))"

definition sortedCandidates :: "candidate list \<Rightarrow> rat \<Rightarrow> nat \<Rightarrow> buildState \<Rightarrow> candidate list" where
  "sortedCandidates allMatches targetGames r st =
     arraySort (compareMatches r targetGames st) (filter (isCandidate st targetGames) allMatches)"

definition buildRound :: "rat \<Rightarrow> candidate list \<Rightarrow> rat \<Rightarrow> nat \<Rightarrow> buildState \<Rightarrow> buildState" where
  \<comment> \<open>the body of the loop over \<open>r\<close>\<close>
  "buildRound boards allMatches targetGames r st =
     (case selectLoop boards r (sortedCandidates allMatches targetGames r st) (st, {}, []) of
        (st', usedThisRound, rnd) \<Rightarrow> st'\<lparr>schedule := schedule st' @ [rnd]\<rparr>)"

definition buildRounds :: "rat \<Rightarrow> nat \<Rightarrow> candidate list \<Rightarrow> rat \<Rightarrow> buildState" where
  \<comment> \<open>the rounds \<open>r = 1, ..., lastRound\<close> of the loop\<close>
  "buildRounds boards lastRound allMatches targetGames =
     fold (buildRound boards allMatches targetGames) [1..<lastRound + 1] initialState"

definition countsEqual :: "int list \<Rightarrow> rat \<Rightarrow> bool" where
  \<comment> \<open>\<open>mn === mx && mx === targetGames\<close>; of no numbers, \<open>Math.min\<close> is \<open>Infinity\<close>
      and \<open>Math.max\<close> is \<open>-Infinity\<close>, which differ\<close>
  "countsEqual counts targetGames =
     (case counts of
        [] \<Rightarrow> False
      | c # cs \<Rightarrow>
          (let mn = fold min cs c; mx = fold max cs c in mn = mx \<and> of_int mx = targetGames))"

definition tryBuild ::
  "rat \<Rightarrow> rat \<Rightarrow> player list \<Rightarrow> candidate list \<Rightarrow> rat \<Rightarrow> match list list \<times> bool" where
  \<comment> \<open>\<open>r <= totalRounds\<close> holds of the whole numbers \<open>r\<close> up to \<open>floor(totalRounds)\<close>\<close>
  "tryBuild boards totalRounds allPlayers allMatches targetGames =
     (let st = buildRounds boards (nat \<lfloor>totalRounds\<rfloor>) allMatches targetGames;
          counts = map (gamesPlayed st) allPlayers
      in (schedule st, countsEqual counts targetGames))"

subsection \<open>buildGlobalSchedule: the search for the target\<close>

function searchTarget ::
  "rat \<Rightarrow> rat \<Rightarrow> player list \<Rightarrow> candidate list \<Rightarrow> rat \<Rightarrow> (rat \<times> match list list) option" where
  "searchTarget boards totalRounds allPlayers allMatches target =
     (if target \<ge> 0 then
        (case tryBuild boards totalRounds allPlayers allMatches target of
           (sched, equal) \<Rightarrow>
             if equal then Some (target, sched)
             else searchTarget boards totalRounds allPlayers allMatches (target - 1))
      else None)"
  by pat_completeness auto
termination
  by (relation "measure (\<lambda>(boards, totalRounds, allPlayers, allMatches, target). nat (\<lfloor>target\<rfloor> + 1))")
    auto

declare searchTarget.simps [simp del]

text \<open>
  \<open>searchTarget\<close> is the \<open>while (target >= 0)\<close> loop; beside the schedule it returns
  the target at which it stopped, which the JavaScript does not return. \<open>None\<close> is the
  loop falling through to the last \<open>return\<close>, where \<open>Array.from({ length: totalRounds })\<close>
  has \<open>floor(totalRounds)\<close> entries.
\<close>

definition foundTarget :: "pair list list list \<Rightarrow> jsnumber \<Rightarrow> jsnumber \<Rightarrow> (rat \<times> match list list) option" where
  "foundTarget groupRounds boards0 preferredRounds =
     (let boards = atLeastOne boards0;
          totalRounds = atLeastOne preferredRounds;
          groups = map groupPlayers groupRounds;
          allPlayers = allPlayersOf groups;
          allMatches = allMatchesOf groups;
          target = startTarget boards totalRounds groups allPlayers
      in searchTarget boards totalRounds allPlayers allMatches target)"

definition buildGlobalSchedule :: "pair list list list \<Rightarrow> jsnumber \<Rightarrow> jsnumber \<Rightarrow> match list list" where
  "buildGlobalSchedule groupRounds boards0 preferredRounds =
     (case foundTarget groupRounds boards0 preferredRounds of
        Some (target, sched) \<Rightarrow> sched
      | None \<Rightarrow> replicate (nat \<lfloor>atLeastOne preferredRounds\<rfloor>) [])"

section \<open>App.jsx\<close>

subsection \<open>rebalanceBoards\<close>

text \<open>
  \<open>lastBoard\<close> is a plain object that starts empty: a player who has no entry yet reads
  \<open>undefined\<close>, or for a name of \<open>Object.prototype\<close> a function, and neither is
  \<open>===\<close> to a board. The one name that never gets an entry is \<open>__proto__\<close>: assigning
  a number to it changes nothing, and reading it gives the prototype.
\<close>

definition readBoard :: "(player \<rightharpoonup> nat) \<Rightarrow> player \<Rightarrow> nat option" where
  \<comment> \<open>\<open>lastBoard[p]\<close>, when it is a number\<close>
  "readBoard lastBoard p = (if p = ''__proto__'' then None else lastBoard p)"

definition writeBoard :: "(player \<rightharpoonup> nat) \<Rightarrow> player \<Rightarrow> nat \<Rightarrow> (player \<rightharpoonup> nat)" where
  \<comment> \<open>\<open>lastBoard[p] = b\<close>\<close>
  "writeBoard lastBoard p b = (if p = ''__proto__'' then lastBoard else lastBoard(p \<mapsto> b))"

definition conflictForMatch :: "(player \<rightharpoonup> nat) \<Rightarrow> match \<Rightarrow> nat" where
  "conflictForMatch lastBoard m =
     (if readBoard lastBoard (A m) = Some (board m) then 1 else 0) +
     (if readBoard lastBoard (B m) = Some (board m) then 1 else 0)"

definition trySwap :: "(player \<rightharpoonup> nat) \<Rightarrow> nat \<Rightarrow> nat \<Rightarrow> match list \<times> bool \<Rightarrow> match list \<times> bool" where
  \<comment> \<open>the body of the two loops over \<open>i < j\<close>; reverting restores the list as it was\<close>
  "trySwap lastBoard i j s =
     (case s of (matches, improved) \<Rightarrow>
        let m1 = matches ! i; m2 = matches ! j;
            scoreBefore = conflictForMatch lastBoard m1 + conflictForMatch lastBoard m2;
            b1 = board m1; b2 = board m2;
            m1' = m1\<lparr>board := b2\<rparr>;
            m2' = m2\<lparr>board := b1\<rparr>;
            scoreAfter = conflictForMatch lastBoard m1' + conflictForMatch lastBoard m2'
        in if scoreAfter < scoreBefore then (matches[i := m1', j := m2'], True)
           else (matches, improved))"

definition pairIndices :: "nat \<Rightarrow> (nat \<times> nat) list" where
  "pairIndices n = concat (map (\<lambda>i. map (\<lambda>j. (i, j)) [i + 1..<n]) [0..<n])"

definition swapPass :: "(player \<rightharpoonup> nat) \<Rightarrow> match list \<Rightarrow> match list \<times> bool" where
  \<comment> \<open>one turn of the \<open>while\<close> loop, from \<open>improved = false\<close>\<close>
  "swapPass lastBoard matches =
     fold (\<lambda>(i, j). trySwap lastBoard i j) (pairIndices (length matches)) (matches, False)"

function swapLoop :: "(player \<rightharpoonup> nat) \<Rightarrow> match list \<Rightarrow> bool \<Rightarrow> nat \<Rightarrow> match list \<times> nat" where
  "swapLoop lastBoard matches improved guard =
     (if improved \<and> guard < 10 then
        (case swapPass lastBoard matches of
           (matches', improved') \<Rightarrow> swapLoop lastBoard matches' improved' (guard + 1))
      else (matches, guard))"
  by pat_completeness auto
termination
  by (relation "measure (\<lambda>(lastBoard, matches, improved, guard). 10 - guard)") auto

declare swapLoop.simps [simp del]

text \<open>
  \<open>swapLoop\<close> returns, beside the matches, the value of \<open>guard\<close> when the loop stops:
  the number of passes it made.
\<close>

definition finalizeRound :: "(player \<rightharpoonup> nat) \<Rightarrow> match list \<Rightarrow> (player \<rightharpoonup> nat)" where
  "finalizeRound lastBoard matches =
     fold (\<lambda>m lb. writeBoard (writeBoard lb (A m) (board m)) (B m) (board m)) matches lastBoard"

fun rebalanceFrom :: "(player \<rightharpoonup> nat) \<Rightarrow> match list list \<Rightarrow> match list list" where
  "rebalanceFrom lastBoard [] = []"
| "rebalanceFrom lastBoard (matches # rounds) =
     (let matches' = fst (swapLoop lastBoard matches True 0)
      in matches' # rebalanceFrom (finalizeRound lastBoard matches') rounds)"

definition rebalanceBoards :: "match list list \<Rightarrow> match list list" where
  \<comment> \<open>the clone of the argument is the argument: only the copy is mutated\<close>
  "rebalanceBoards sched = rebalanceFrom Map.empty sched"

subsection \<open>totals\<close>







section \<open>Measures used in the statements\<close>

definition playersOf :: "'a candidate_scheme list \<Rightarrow> player list" where
  \<comment> \<open>the players of a list of matches, one entry for each side of each match\<close>
  "playersOf ms = concat (map (\<lambda>m. [A m, B m]) ms)"

definition pairSet :: "'a candidate_scheme \<Rightarrow> player set" where
  \<comment> \<open>the unordered pair of a match\<close>
  "pairSet m = {A m, B m}"

definition appearances :: "player \<Rightarrow> match list list \<Rightarrow> nat" where
  \<comment> \<open>how many times a player appears in a schedule\<close>
  "appearances p sched = count_list (playersOf (concat sched)) p"

definition scheduled :: "nat \<Rightarrow> candidate \<Rightarrow> nat \<Rightarrow> match" where
  "scheduled r m b = \<lparr>A = A m, B = B m, group = group m, round = r, board = b\<rparr>"

fun numbered :: "nat \<Rightarrow> nat \<Rightarrow> candidate list \<Rightarrow> match list" where
  \<comment> \<open>candidates put on the boards \<open>n + 1\<close>, \<open>n + 2\<close>, ... of round \<open>r\<close>, in their order\<close>
  "numbered r n [] = []"
| "numbered r n (m # ms) = scheduled r m (n + 1) # numbered r (n + 1) ms"

fun greedySelect :: "rat \<Rightarrow> nat \<Rightarrow> player set \<Rightarrow> candidate list \<Rightarrow> candidate list" where
  \<comment> \<open>greedy selection in the order of the list: a candidate is taken unless one of its
      players is already used; selection stops once \<open>boards\<close> matches are on the round\<close>
  "greedySelect boards n used [] = []"
| "greedySelect boards n used (m # ms) =
     (if of_nat n \<ge> boards then []
      else if A m \<in> used \<or> B m \<in> used then greedySelect boards n used ms
      else m # greedySelect boards (n + 1) (insert (B m) (insert (A m) used)) ms)"

definition roundChoice :: "rat \<Rightarrow> candidate list \<Rightarrow> rat \<Rightarrow> nat \<Rightarrow> buildState \<Rightarrow> candidate list" where
  "roundChoice boards allMatches targetGames r st =
     greedySelect boards 0 {} (sortedCandidates allMatches targetGames r st)"

definition roundOk :: "rat \<Rightarrow> match list \<Rightarrow> bool" where
  "roundOk boards rnd =
     (distinct (playersOf rnd) \<and> int (length rnd) \<le> \<lceil>boards\<rceil>
      \<and> map board rnd = [1..<length rnd + 1])"



definition playersIn :: "pair list list list \<Rightarrow> player list" where
  \<comment> \<open>\<open>allPlayers\<close> of \<open>buildGlobalSchedule\<close>, as a function of its argument\<close>
  "playersIn groupRounds = allPlayersOf (map groupPlayers groupRounds)"

definition attemptSchedule :: "pair list list list \<Rightarrow> jsnumber \<Rightarrow> jsnumber \<Rightarrow> rat \<Rightarrow> match list list" where
  \<comment> \<open>the schedule of \<open>tryBuild(t)\<close> inside \<open>buildGlobalSchedule\<close>\<close>
  "attemptSchedule groupRounds boards0 preferredRounds t =
     fst (tryBuild (atLeastOne boards0) (atLeastOne preferredRounds) (playersIn groupRounds)
            (allMatchesOf (map groupPlayers groupRounds)) t)"

definition perfectAt :: "pair list list list \<Rightarrow> jsnumber \<Rightarrow> jsnumber \<Rightarrow> rat \<Rightarrow> bool" where
  \<comment> \<open>the attempt at target \<open>t\<close> gives every player exactly \<open>t\<close> appearances\<close>
  "perfectAt groupRounds boards0 preferredRounds t =
     (\<forall>p \<in> set (playersIn groupRounds).
        of_nat (appearances p (attemptSchedule groupRounds boards0 preferredRounds t)) = t)"

definition whole :: "jsnumber \<Rightarrow> bool" where
  \<comment> \<open>not a number, or a whole number\<close>
  "whole x = (case x of NaN \<Rightarrow> True | Num q \<Rightarrow> of_int \<lfloor>q\<rfloor> = q)"




definition roundConflict :: "(player \<rightharpoonup> nat) \<Rightarrow> match list \<Rightarrow> nat" where
  "roundConflict lastBoard matches = sum_list (map (conflictForMatch lastBoard) matches)"

definition withoutBoard :: "match \<Rightarrow> nat \<times> player \<times> player \<times> nat" where
  \<comment> \<open>a match's round number, players and group: all but its board\<close>
  "withoutBoard m = (round m, A m, B m, group m)"

definition swapped :: "match list \<Rightarrow> nat \<Rightarrow> nat \<Rightarrow> match list" where
  \<comment> \<open>the list after the boards of the matches at \<open>i\<close> and \<open>j\<close> are exchanged\<close>
  "swapped ms i j =
     ms[i := (ms ! i)\<lparr>board := board (ms ! j)\<rparr>, j := (ms ! j)\<lparr>board := board (ms ! i)\<rparr>]"

fun totalConflictFrom :: "(player \<rightharpoonup> nat) \<Rightarrow> match list list \<Rightarrow> nat" where
  \<comment> \<open>every round measured against the boards the players last had in the rounds before it\<close>
  "totalConflictFrom lastBoard [] = 0"
| "totalConflictFrom lastBoard (matches # rounds) =
     roundConflict lastBoard matches + totalConflictFrom (finalizeRound lastBoard matches) rounds"

definition boardIn :: "match list \<Rightarrow> player \<Rightarrow> nat option" where
  \<comment> \<open>the board a player is on in a round, if the player is in it\<close>
  "boardIn rnd p = map_option board (find (\<lambda>m. A m = p \<or> B m = p) rnd)"

definition repeats :: "match list \<Rightarrow> match \<Rightarrow> nat" where
  \<comment> \<open>one point for each player of the match who was on its board in the round \<open>prev\<close>\<close>
  "repeats prev m =
     (if boardIn prev (A m) = Some (board m) then 1 else 0) +
     (if boardIn prev (B m) = Some (board m) then 1 else 0)"

fun precedingRoundConflict :: "match list \<Rightarrow> match list list \<Rightarrow> nat" where
  \<comment> \<open>the total conflict score of the specification: every round against the round
      immediately before it\<close>
  "precedingRoundConflict prev [] = 0"
| "precedingRoundConflict prev (matches # rounds) =
     sum_list (map (repeats prev) matches) + precedingRoundConflict matches rounds"

text \<open>What \<open>buildGlobalSchedule\<close> returns for ten players in one group, 3 boards, 5 rounds.\<close>

definition tenPlayersFiveRounds :: "match list list" where
  "tenPlayersFiveRounds =
     [[\<lparr>A = ''P1'', B = ''P10'', group = 1, round = 1, board = 1\<rparr>,
       \<lparr>A = ''P2'', B = ''P9'', group = 1, round = 1, board = 2\<rparr>,
       \<lparr>A = ''P3'', B = ''P8'', group = 1, round = 1, board = 3\<rparr>],
      [\<lparr>A = ''P4'', B = ''P7'', group = 1, round = 2, board = 1\<rparr>,
       \<lparr>A = ''P5'', B = ''P6'', group = 1, round = 2, board = 2\<rparr>,
       \<lparr>A = ''P1'', B = ''P2'', group = 1, round = 2, board = 3\<rparr>],
      [\<lparr>A = ''P10'', B = ''P9'', group = 1, round = 3, board = 1\<rparr>,
       \<lparr>A = ''P3'', B = ''P4'', group = 1, round = 3, board = 2\<rparr>,
       \<lparr>A = ''P8'', B = ''P7'', group = 1, round = 3, board = 3\<rparr>],
      [\<lparr>A = ''P1'', B = ''P5'', group = 1, round = 4, board = 1\<rparr>,
       \<lparr>A = ''P2'', B = ''P6'', group = 1, round = 4, board = 2\<rparr>,
       \<lparr>A = ''P10'', B = ''P3'', group = 1, round = 4, board = 3\<rparr>],
      [\<lparr>A = ''P9'', B = ''P8'', group = 1, round = 5, board = 1\<rparr>,
       \<lparr>A = ''P4'', B = ''P5'', group = 1, round = 5, board = 2\<rparr>,
       \<lparr>A = ''P7'', B = ''P6'', group = 1, round = 5, board = 3\<rparr>]]"

section \<open>Properties\<close>

subsection \<open>roundRobinPairs\<close>

lemma length_rrLoop: "length (rrLoop k half a b) = k"
  by (induction k arbitrary: a b) (simp_all split: prod.splits)

lemma roundRobinPairs_rounds:
  "length (roundRobinPairs grp) = (if even (length grp) then length grp - 1 else length grp)"
  by (simp add: roundRobinPairs_def Let_def length_rrLoop even_iff_mod_2_eq_zero)

lemma rotateHalves_reverses:
  assumes "length a = half" and "length b = half" and "0 < half"
  shows "rotateHalves half a b = (a, rev b)"
proof -
  obtain x a' where a: "a = x # a'" using assms by (cases a) auto
  obtain y b' where b: "b = y # b'" using assms by (cases b) auto
  have "length a' = half - 1" using assms a by simp
  then show ?thesis
    by (simp add: rotateHalves_def Let_def a b)
qed

text \<open>
  What holds of the pairer: it returns \<open>k - 1\<close> rounds for an even and \<open>k\<close> for an odd
  number \<open>k\<close> of players (\<open>roundRobinPairs_rounds\<close>), and when no player is named as the
  bye placeholder, every round has \<open>k div 2\<close> pairs. But the rotation leaves \<open>a\<close> as it
  is and reverses \<open>b\<close> (\<open>rotateHalves_reverses\<close>), so the rounds alternate between two
  pairings: with three players or more, the third round is the first again.
\<close>

lemma pairsOfRound_zip:
  assumes "length a = half" and "length b = half"
  shows "pairsOfRound half a b = filter (\<lambda>(p1, p2). p1 \<noteq> BYE \<and> p2 \<noteq> BYE) (zip a b)"
proof -
  have "map (\<lambda>i. (a ! i, b ! i)) [0..<half] = zip a b"
    using assms by (intro nth_equalityI) simp_all
  then show ?thesis by (simp add: pairsOfRound_def)
qed

lemma length_real_pairs:
  assumes "length a = length b" and "BYE \<notin> set a"
  shows "length (filter (\<lambda>(p1, p2). p1 \<noteq> BYE \<and> p2 \<noteq> BYE) (zip a b)) + count_list b BYE = length b"
  using assms by (induction a b rule: list_induct2) auto

lemma rrLoop_rounds:
  assumes "length a = half" and "length b = half" and "0 < half"
  shows "set (rrLoop k half a b) \<subseteq> {pairsOfRound half a b, pairsOfRound half a (rev b)}"
  using assms
proof (induction k arbitrary: b)
  case 0
  then show ?case by simp
next
  case (Suc k)
  from Suc.prems have rot: "rotateHalves half a b = (a, rev b)"
    by (intro rotateHalves_reverses)
  from Suc.IH [of "rev b"] Suc.prems
  have "set (rrLoop k half a (rev b)) \<subseteq> {pairsOfRound half a (rev b), pairsOfRound half a b}"
    by simp
  with rot show ?case by auto
qed

lemma roundRobinPairs_pairs_per_round:
  assumes "BYE \<notin> set grp" and "rnd \<in> set (roundRobinPairs grp)"
  shows "length rnd = length grp div 2"
proof -
  let ?arr = "if length grp mod 2 = 1 then grp @ [BYE] else grp"
  let ?half = "length ?arr div 2"
  let ?a = "take ?half ?arr"
  let ?b = "rev (drop ?half ?arr)"
  have rr: "roundRobinPairs grp = rrLoop (length ?arr - 1) ?half ?a ?b"
    by (simp add: roundRobinPairs_def Let_def)
  have even: "length ?arr mod 2 = 0" by (simp add: mod2_eq_if)
  have "length ?arr - 1 \<noteq> 0"
  proof
    assume "length ?arr - 1 = 0"
    with rr have "roundRobinPairs grp = []" by simp
    with assms(2) show False by simp
  qed
  then have pos: "0 < ?half" using even by (auto simp: mod2_eq_if split: if_splits)
  have la: "length ?a = ?half" by simp
  have "length ?arr = 2 * ?half"
    using even by presburger
  then have "length ?arr - ?half = ?half"
    by linarith
  then have lb: "length ?b = ?half"
    by (simp only: length_rev length_drop)
  have noBye: "BYE \<notin> set ?a"
    using assms(1) by (auto dest!: in_set_takeD simp: mod2_eq_if split: if_splits)
  have none: "count_list (drop n grp) BYE = 0" for n
    using assms(1) by (meson count_list_0_iff in_set_dropD)
  have cnt: "count_list ?b BYE = length grp mod 2"
  proof (cases "length grp mod 2 = 1")
    case True
    then have "length ?arr div 2 \<le> length grp" by simp
    then have "drop ?half ?arr = drop ?half grp @ [BYE]"
      using True by simp
    then show ?thesis using True none by simp
  next
    case False
    then show ?thesis using none by simp
  qed
  from assms(2) rr rrLoop_rounds [OF la lb pos, of "length ?arr - 1"]
  have "rnd = pairsOfRound ?half ?a ?b \<or> rnd = pairsOfRound ?half ?a (rev ?b)"
    by auto
  then obtain b' where b': "b' = ?b \<or> b' = rev ?b" and rnd: "rnd = pairsOfRound ?half ?a b'"
    by blast
  from b' lb have lb': "length b' = ?half" by auto
  from b' cnt have cnt': "count_list b' BYE = length grp mod 2"
    by auto
  from la lb' have "length ?a = length b'" by simp
  from length_real_pairs [OF this noBye] cnt' lb'
  have "length (filter (\<lambda>(p1, p2). p1 \<noteq> BYE \<and> p2 \<noteq> BYE) (zip ?a b')) + length grp mod 2 = ?half"
    by simp
  moreover have "rnd = filter (\<lambda>(p1, p2). p1 \<noteq> BYE \<and> p2 \<noteq> BYE) (zip ?a b')"
    unfolding rnd by (rule pairsOfRound_zip [OF la lb'])
  ultimately have "length rnd + length grp mod 2 = ?half" by simp
  then show ?thesis
    by (simp add: mod2_eq_if split: if_splits)
qed


lemma rrLoop_third_round:
  assumes "length a = half" and "length b = half" and "0 < half"
  shows "rrLoop (Suc (Suc (Suc k))) half a b ! 2 = rrLoop (Suc (Suc (Suc k))) half a b ! 0"
proof -
  have r1: "rotateHalves half a b = (a, rev b)"
    using assms by (intro rotateHalves_reverses)
  have r2: "rotateHalves half a (rev b) = (a, rev (rev b))"
    using assms by (intro rotateHalves_reverses) simp_all
  show ?thesis
    by (simp add: r1 r2)
qed

lemma roundRobinPairs_third_round:
  assumes "3 \<le> length grp"
  shows "roundRobinPairs grp ! 2 = roundRobinPairs grp ! 0"
proof -
  let ?arr = "if length grp mod 2 = 1 then grp @ [BYE] else grp"
  let ?half = "length ?arr div 2"
  have even: "length ?arr mod 2 = 0" by (simp add: mod2_eq_if)
  have four: "4 \<le> length ?arr"
    using assms by (auto simp: mod2_eq_if split: if_splits)
  then have "3 \<le> length ?arr - 1" by simp
  then obtain k where "length ?arr - 1 = 3 + k"
    using le_iff_add by blast
  then have k: "length ?arr - 1 = Suc (Suc (Suc k))" by simp
  have "length ?arr = 2 * ?half"
    using even by presburger
  then have "length ?arr - ?half = ?half" by linarith
  then have lb: "length (rev (drop ?half ?arr)) = ?half"
    by (simp only: length_rev length_drop)
  have la: "length (take ?half ?arr) = ?half" by simp
  have pos: "0 < ?half" using four by simp
  have "roundRobinPairs grp = rrLoop (Suc (Suc (Suc k))) ?half (take ?half ?arr) (rev (drop ?half ?arr))"
    using k by (simp add: roundRobinPairs_def Let_def)
  with rrLoop_third_round [OF la lb pos, of k] show ?thesis
    by simp
qed

text \<open>
  C4 fails on the code. For the four players below the pairer returns three rounds of two
  pairs, but the third round is the first again: \<open>P1\<close> meets \<open>P4\<close> twice, and never
  meets \<open>P2\<close>.
\<close>

theorem roundRobinPairs_repeats_pairs:
  "roundRobinPairs [''P1'', ''P2'', ''P3'', ''P4''] =
     [[(''P1'', ''P4''), (''P2'', ''P3'')],
      [(''P1'', ''P3''), (''P2'', ''P4'')],
      [(''P1'', ''P4''), (''P2'', ''P3'')]]"
  by code_simp

subsection \<open>buildGlobalSchedule: the selection loop\<close>

lemma playersOf_simps [simp]:
  "playersOf [] = []"
  "playersOf (m # ms) = A m # B m # playersOf ms"
  "playersOf (xs @ ys) = playersOf xs @ playersOf ys"
  by (simp_all add: playersOf_def)

lemma length_numbered [simp]: "length (numbered r n ch) = length ch"
  by (induction ch arbitrary: n) simp_all

lemma boards_numbered: "map board (numbered r n ch) = [n + 1..<n + 1 + length ch]"
proof (induction ch arbitrary: n)
  case Nil
  then show ?case by simp
next
  case (Cons m ms)
  have "[n + 1..<n + 1 + length (m # ms)] = (n + 1) # [n + 1 + 1..<n + 1 + 1 + length ms]"
    by (simp add: upt_conv_Cons del: upt_Suc)
  with Cons.IH [of "n + 1"] show ?case
    by (simp add: scheduled_def del: upt_Suc)
qed

lemma selectLoop_eq:
  "selectLoop boards r cands (st, used, rnd) =
     (fold (commitMatch r) (greedySelect boards (length rnd) used cands) st,
      used \<union> set (playersOf (greedySelect boards (length rnd) used cands)),
      rnd @ numbered r (length rnd) (greedySelect boards (length rnd) used cands))"
proof (induction cands arbitrary: st used rnd)
  case Nil
  then show ?case by simp
next
  case (Cons m ms)
  show ?case
  proof (cases "boards \<le> of_nat (length rnd)")
    case True
    then show ?thesis by simp
  next
    case False
    note notFull = this
    show ?thesis
    proof (cases "A m \<in> used \<or> B m \<in> used")
      case True
      with notFull Cons.IH [of st used rnd] show ?thesis by simp
    next
      case False
      let ?rnd = "rnd @ [\<lparr>A = A m, B = B m, group = group m, round = r, board = length rnd + 1\<rparr>]"
      have "selectLoop boards r (m # ms) (st, used, rnd)
          = selectLoop boards r ms (commitMatch r m st, insert (B m) (insert (A m) used), ?rnd)"
        using notFull False by simp
      also note Cons.IH [of "commitMatch r m st" "insert (B m) (insert (A m) used)" ?rnd]
      finally show ?thesis
        using notFull False by (auto simp: scheduled_def)
    qed
  qed
qed

lemma greedySelect_subset: "set (greedySelect boards n used cands) \<subseteq> set cands"
  by (induction cands arbitrary: n used) auto

lemma greedySelect_length:
  "of_nat n < boards + 1
    \<Longrightarrow> of_nat (n + length (greedySelect boards n used cands)) < boards + 1"
proof (induction cands arbitrary: n used)
  case Nil
  then show ?case by simp
next
  case (Cons m ms)
  show ?case
  proof (cases "boards \<le> of_nat n")
    case True
    with Cons.prems show ?thesis by simp
  next
    case False
    then have "of_nat (n + 1) < boards + 1" by simp
    from Cons.IH [OF this] Cons.IH [OF Cons.prems] False show ?thesis
      by simp
  qed
qed

lemma greedySelect_ceiling: "int (length (greedySelect boards 0 used cands)) \<le> \<lceil>boards\<rceil>"
  if "0 \<le> boards"
proof -
  from that have "of_nat 0 < boards + 1" by simp
  from greedySelect_length [OF this, of used cands]
  have "of_int (int (length (greedySelect boards 0 used cands)) - 1) < boards" by simp
  then have "int (length (greedySelect boards 0 used cands)) - 1 < \<lceil>boards\<rceil>"
    by (simp only: less_ceiling_iff)
  then show ?thesis by simp
qed

lemma greedySelect_fresh: "set (playersOf (greedySelect boards n used cands)) \<inter> used = {}"
proof (induction cands arbitrary: n used)
  case Nil
  then show ?case by simp
next
  case (Cons m ms)
  from Cons.IH [of "n + 1" "insert (B m) (insert (A m) used)"] Cons.IH [of n used]
  show ?case by auto
qed

lemma greedySelect_distinct:
  "\<forall>m \<in> set cands. A m \<noteq> B m \<Longrightarrow> distinct (playersOf (greedySelect boards n used cands))"
proof (induction cands arbitrary: n used)
  case Nil
  then show ?case by simp
next
  case (Cons m ms)
  from greedySelect_fresh [of boards "n + 1" "insert (B m) (insert (A m) used)" ms]
  have "A m \<notin> set (playersOf (greedySelect boards (n + 1) (insert (B m) (insert (A m) used)) ms))"
    and "B m \<notin> set (playersOf (greedySelect boards (n + 1) (insert (B m) (insert (A m) used)) ms))"
    by auto
  with Cons show ?case by simp
qed

subsection \<open>buildGlobalSchedule: the counters of an attempt\<close>

lemma fold_commit_schedule [simp]: "schedule (fold (commitMatch r) ch st) = schedule st"
  by (induction ch arbitrary: st) (simp_all add: commitMatch_def Let_def)

lemma fold_commit_pairPlayed:
  "pairPlayed (fold (commitMatch r) ch st) = pairPlayed st \<union> pairKey ` set ch"
  by (induction ch arbitrary: st) (auto simp: commitMatch_def Let_def)

lemma fold_commit_gamesPlayed:
  "gamesPlayed (fold (commitMatch r) ch st) p = gamesPlayed st p + int (count_list (playersOf ch) p)"
  by (induction ch arbitrary: st) (auto simp: commitMatch_def Let_def)


lemma buildRound_eq:
  "buildRound boards allMatches targetGames r st =
     (fold (commitMatch r) (roundChoice boards allMatches targetGames r st) st)
       \<lparr>schedule := schedule st @ [numbered r 0 (roundChoice boards allMatches targetGames r st)]\<rparr>"
  by (simp add: buildRound_def roundChoice_def selectLoop_eq)

lemma buildRounds_0 [simp]: "buildRounds boards 0 allMatches targetGames = initialState"
  by (simp add: buildRounds_def)

lemma buildRounds_Suc:
  "buildRounds boards (Suc k) allMatches targetGames =
     buildRound boards allMatches targetGames (Suc k) (buildRounds boards k allMatches targetGames)"
  by (simp add: buildRounds_def)

lemma playersOf_numbered [simp]: "playersOf (numbered r n ch) = playersOf ch"
  by (induction ch arbitrary: n) (simp_all add: scheduled_def)

lemma pairKey_numbered [simp]: "map pairKey (numbered r n ch) = map pairKey ch"
  by (induction ch arbitrary: n) (simp_all add: scheduled_def pairKey_def)

lemma pairSet_numbered [simp]: "map pairSet (numbered r n ch) = map pairSet ch"
  by (induction ch arbitrary: n) (simp_all add: scheduled_def pairSet_def)

lemma insertBy_mset: "mset (insertBy c x xs) = add_mset x (mset xs)"
  by (induction xs) simp_all

lemma arraySort_mset [simp]: "mset (arraySort c xs) = mset xs"
  unfolding arraySort_def by (induction xs) (simp_all add: insertBy_mset)

lemma arraySort_set [simp]: "set (arraySort c xs) = set xs"
  by (metis arraySort_mset set_mset_mset)

lemma roundChoice_candidates:
  "set (roundChoice boards allMatches targetGames r st) \<subseteq> {m \<in> set allMatches. isCandidate st targetGames m}"
  using greedySelect_subset [of boards 0 "{}" "sortedCandidates allMatches targetGames r st"]
  by (auto simp: roundChoice_def sortedCandidates_def)

lemma gamesPlayed_appearances:
  "gamesPlayed (buildRounds boards k allMatches targetGames) p
     = int (appearances p (schedule (buildRounds boards k allMatches targetGames)))"
proof (induction k)
  case 0
  then show ?case by (simp add: initialState_def appearances_def)
next
  case (Suc k)
  then show ?case
    by (simp add: buildRounds_Suc buildRound_eq fold_commit_gamesPlayed appearances_def)
qed

lemma pairPlayed_schedule:
  "pairPlayed (buildRounds boards k allMatches targetGames)
     = set (map pairKey (concat (schedule (buildRounds boards k allMatches targetGames))))"
proof (induction k)
  case 0
  then show ?case by (simp add: initialState_def)
next
  case (Suc k)
  have "set (map pairKey (numbered (Suc k) 0 ch)) = pairKey ` set ch" for ch
    by (simp only: pairKey_numbered set_map)
  with Suc show ?case
    by (simp add: buildRounds_Suc buildRound_eq fold_commit_pairPlayed Un_commute)
qed

lemma pairKey_pairSet:
  fixes m :: "'a candidate_scheme" and m' :: "'b candidate_scheme"
  assumes "pairSet m = pairSet m'"
  shows "pairKey m = pairKey m'"
proof -
  from assms have "A m = A m' \<and> B m = B m' \<or> A m = B m' \<and> B m = A m'"
    by (auto simp: pairSet_def doubleton_eq_iff)
  then show ?thesis
    by (auto simp: pairKey_def)
qed

lemma distinct_pairSets:
  fixes ch :: "'a candidate_scheme list"
  shows "distinct (playersOf ch) \<Longrightarrow> distinct (map pairSet ch)"
proof (induction ch)
  case Nil
  then show ?case by simp
next
  case (Cons m ms)
  have "pairSet m \<notin> pairSet ` set ms"
  proof
    assume "pairSet m \<in> pairSet ` set ms"
    then obtain m' where m': "m' \<in> set ms" "pairSet m = pairSet m'" by auto
    then have "A m \<in> {A m', B m'}" by (auto simp: pairSet_def)
    with m' have "A m \<in> set (playersOf ms)" by (auto simp: playersOf_def)
    with Cons.prems show False by simp
  qed
  with Cons show ?case by simp
qed

subsection \<open>buildGlobalSchedule: the candidates and the rounds of an attempt\<close>

lemma setAdd_distinct: "distinct s \<Longrightarrow> distinct (setAdd s x)"
  by (simp add: setAdd_def)

lemma set_setAdd [simp]: "set (setAdd s x) = insert x (set s)"
  by (auto simp: setAdd_def)

lemma fold_setAdd_pairs_distinct:
  "distinct s \<Longrightarrow> distinct (fold (\<lambda>(a, b) s. setAdd (setAdd s a) b) r s)"
  by (induction r arbitrary: s) (auto simp: setAdd_distinct)

lemma groupPlayers_distinct: "distinct (groupPlayers gr)"
proof -
  have "distinct s \<Longrightarrow> distinct (fold (\<lambda>r s. fold (\<lambda>(a, b) s. setAdd (setAdd s a) b) r s) gr s)" for s
    by (induction gr arbitrary: s) (simp_all add: fold_setAdd_pairs_distinct)
  then show ?thesis by (simp add: groupPlayers_def)
qed


lemma fold_setAdd_distinct: "distinct s \<Longrightarrow> distinct (fold (\<lambda>p s. setAdd s p) ps s)"
  by (induction ps arbitrary: s) (simp_all add: setAdd_distinct)


lemma allPlayersOf_distinct: "distinct (allPlayersOf groups)"
  by (simp add: allPlayersOf_def fold_setAdd_distinct)


lemma groupMatches_members:
  assumes "m \<in> set (groupMatches gi g)"
  shows "\<exists>i j. i < j \<and> j < length g \<and> A m = g ! i \<and> B m = g ! j \<and> group m = gi + 1"
proof -
  from assms obtain i j where "i < length g" "i + 1 \<le> j" "j < length g"
    and m: "m = \<lparr>A = g ! i, B = g ! j, group = gi + 1\<rparr>"
    by (auto simp: groupMatches_def)
  then have "i < j \<and> j < length g \<and> A m = g ! i \<and> B m = g ! j \<and> group m = gi + 1"
    by simp
  then show ?thesis by blast
qed

lemma allMatchesOf_members:
  assumes "m \<in> set (allMatchesOf groups)"
  shows "\<exists>gi i j. gi < length groups \<and> i < j \<and> j < length (groups ! gi)
          \<and> A m = groups ! gi ! i \<and> B m = groups ! gi ! j \<and> group m = gi + 1"
proof -
  from assms obtain gi g where "(gi, g) \<in> set (enumerate 0 groups)" and m: "m \<in> set (groupMatches gi g)"
    by (auto simp: allMatchesOf_def)
  then have gi: "gi < length groups" "g = groups ! gi"
    by (auto simp: in_set_enumerate_eq)
  from groupMatches_members [OF m] gi show ?thesis by blast
qed

lemma allMatchesOf_two_players:
  assumes "\<forall>g \<in> set groups. distinct g" and "m \<in> set (allMatchesOf groups)"
  shows "A m \<noteq> B m"
proof -
  from allMatchesOf_members [OF assms(2)]
  obtain gi i j where h: "gi < length groups" "i < j" "j < length (groups ! gi)"
    "A m = groups ! gi ! i" "B m = groups ! gi ! j" by blast
  from h(1) assms(1) have "distinct (groups ! gi)" by simp
  with h show ?thesis by (simp add: nth_eq_iff_index_eq)
qed

lemma allMatchesOf_groupPlayers: "m \<in> set (allMatchesOf (map groupPlayers gr)) \<Longrightarrow> A m \<noteq> B m"
  by (rule allMatchesOf_two_players) (auto simp: groupPlayers_distinct)

lemma count_players_matches:
  fixes ms :: "'a candidate_scheme list"
  assumes "\<forall>m \<in> set ms. A m \<noteq> B m"
  shows "count_list (playersOf ms) p = length (filter (\<lambda>m. A m = p \<or> B m = p) ms)"
  using assms by (induction ms) auto

lemma distinct_playersOf_two:
  fixes ms :: "'a candidate_scheme list"
  shows "distinct (playersOf ms) \<Longrightarrow> m \<in> set ms \<Longrightarrow> A m \<noteq> B m"
  by (induction ms) auto

lemma roundChoice_distinct:
  assumes "\<forall>m \<in> set allMatches. A m \<noteq> B m"
  shows "distinct (playersOf (roundChoice boards allMatches targetGames r st))"
proof -
  let ?cs = "sortedCandidates allMatches targetGames r st"
  have "\<forall>m \<in> set ?cs. A m \<noteq> B m"
    using assms by (simp add: sortedCandidates_def)
  then have "distinct (playersOf (greedySelect boards 0 {} ?cs))"
    by (rule greedySelect_distinct)
  then show ?thesis
    by (simp add: roundChoice_def)
qed

lemma roundChoice_ok:
  assumes "\<forall>m \<in> set allMatches. A m \<noteq> B m" and "0 \<le> boards"
  shows "roundOk boards (numbered r 0 (roundChoice boards allMatches targetGames r st))"
proof -
  let ?cs = "sortedCandidates allMatches targetGames r st"
  have "distinct (playersOf (roundChoice boards allMatches targetGames r st))"
    by (rule roundChoice_distinct [OF assms(1)])
  moreover have "int (length (greedySelect boards 0 {} ?cs)) \<le> \<lceil>boards\<rceil>"
    by (rule greedySelect_ceiling [OF assms(2)])
  ultimately show ?thesis
    using boards_numbered [of r 0 "greedySelect boards 0 {} ?cs"]
    by (simp add: roundOk_def roundChoice_def)
qed

lemma length_schedule_buildRounds [simp]:
  "length (schedule (buildRounds boards k allMatches targetGames)) = k"
  by (induction k) (simp_all add: initialState_def buildRounds_Suc buildRound_eq)

lemma schedule_buildRounds_Suc:
  "schedule (buildRounds boards (Suc k) allMatches targetGames) =
     schedule (buildRounds boards k allMatches targetGames) @
       [numbered (Suc k) 0 (roundChoice boards allMatches targetGames (Suc k)
          (buildRounds boards k allMatches targetGames))]"
  by (simp add: buildRounds_Suc buildRound_eq)

lemma rounds_ok:
  assumes "\<forall>m \<in> set allMatches. A m \<noteq> B m" and "0 \<le> boards"
  shows "\<forall>rnd \<in> set (schedule (buildRounds boards k allMatches targetGames)). roundOk boards rnd"
proof (induction k)
  case 0
  then show ?case by (simp add: initialState_def)
next
  case (Suc k)
  with roundChoice_ok [OF assms] show ?case
    by (simp add: schedule_buildRounds_Suc)
qed

lemma no_rematch:
  assumes "\<forall>m \<in> set allMatches. A m \<noteq> B m"
  shows "distinct (map pairSet (concat (schedule (buildRounds boards k allMatches targetGames))))"
proof (induction k)
  case 0
  then show ?case by (simp add: initialState_def)
next
  case (Suc k)
  let ?st = "buildRounds boards k allMatches targetGames"
  let ?ch = "roundChoice boards allMatches targetGames (Suc k) ?st"
  have "distinct (playersOf ?ch)"
    by (rule roundChoice_distinct [OF assms])
  then have new: "distinct (map pairSet ?ch)"
    by (rule distinct_pairSets)
  have apart: "pairSet m \<noteq> pairSet m'"
    if "m \<in> set ?ch" and "m' \<in> set (concat (schedule ?st))" for m m'
  proof
    assume "pairSet m = pairSet m'"
    then have "pairKey m = pairKey m'" by (rule pairKey_pairSet)
    with that(2) have "pairKey m \<in> pairPlayed ?st"
      by (auto simp: pairPlayed_schedule)
    moreover from that(1) roundChoice_candidates have "isCandidate ?st targetGames m"
      by blast
    ultimately show False
      by (simp add: isCandidate_def)
  qed
  have "set (map pairSet (concat (schedule ?st))) \<inter> set (map pairSet ?ch) = {}"
    using apart by auto
  with Suc new show ?case
    by (simp add: schedule_buildRounds_Suc)
qed



subsection \<open>buildGlobalSchedule: the search\<close>

lemma fold_min_Min: "fold min cs (c::int) = Min (set (c # cs))"
  by (rule Min.set_eq_fold [symmetric])

lemma fold_max_Max: "fold max cs (c::int) = Max (set (c # cs))"
  by (rule Max.set_eq_fold [symmetric])

lemma countsEqual_iff:
  "countsEqual (map f ps) t \<longleftrightarrow> ps \<noteq> [] \<and> (\<forall>p \<in> set ps. of_int (f p) = t)"
proof (cases ps)
  case Nil
  then show ?thesis by (simp add: countsEqual_def)
next
  case (Cons q qs)
  let ?S = "f ` set ps"
  have fin: "finite ?S" "?S \<noteq> {}" using Cons by simp_all
  have "countsEqual (map f ps) t \<longleftrightarrow> Min ?S = Max ?S \<and> of_int (Max ?S) = t"
    unfolding Cons countsEqual_def by (simp add: Let_def fold_min_Min fold_max_Max)
  also have "\<dots> \<longleftrightarrow> (\<forall>x \<in> ?S. of_int x = t)"
  proof
    assume h: "Min ?S = Max ?S \<and> of_int (Max ?S) = t"
    show "\<forall>x \<in> ?S. of_int x = t"
    proof
      fix x assume "x \<in> ?S"
      with fin have "Min ?S \<le> x" "x \<le> Max ?S" by simp_all
      with h have "x = Max ?S" by simp
      with h show "of_int x = t" by simp
    qed
  next
    assume h: "\<forall>x \<in> ?S. of_int x = t"
    from fin have mn: "Min ?S \<in> ?S" and mx: "Max ?S \<in> ?S"
      by (rule Min_in, rule Max_in)
    from bspec [OF h mn] bspec [OF h mx]
    have e: "of_int (Min ?S) = t" "of_int (Max ?S) = t" .
    then have "(of_int (Min ?S) :: rat) = of_int (Max ?S)" by simp
    then have "Min ?S = Max ?S" by (simp only: of_int_eq_iff)
    with e show "Min ?S = Max ?S \<and> of_int (Max ?S) = t" by simp
  qed
  finally show ?thesis using Cons by auto
qed

lemma tryBuild_schedule:
  "fst (tryBuild boards totalRounds allPlayers allMatches t)
     = schedule (buildRounds boards (nat \<lfloor>totalRounds\<rfloor>) allMatches t)"
  by (simp add: tryBuild_def Let_def)

lemma tryBuild_equal:
  "snd (tryBuild boards totalRounds allPlayers allMatches t) \<longleftrightarrow>
     allPlayers \<noteq> [] \<and>
     (\<forall>p \<in> set allPlayers.
        of_nat (appearances p (schedule (buildRounds boards (nat \<lfloor>totalRounds\<rfloor>) allMatches t))) = t)"
  by (simp add: tryBuild_def Let_def countsEqual_iff gamesPlayed_appearances)

text \<open>
  The targets the loop tries are \<open>start\<close>, \<open>start - 1\<close>, ... while they are not negative.
  Where it stops, every target it tried before has failed.
\<close>

lemma searchTarget_Some:
  assumes "searchTarget boards totalRounds allPlayers allMatches start = Some (t, sched)"
  shows "0 \<le> t \<and> (\<exists>k::nat. start = t + of_nat k)
     \<and> sched = fst (tryBuild boards totalRounds allPlayers allMatches t)
     \<and> snd (tryBuild boards totalRounds allPlayers allMatches t)
     \<and> (\<forall>j::nat. t + of_nat (Suc j) \<le> start
            \<longrightarrow> \<not> snd (tryBuild boards totalRounds allPlayers allMatches (t + of_nat (Suc j))))"
  using assms
proof (induction boards totalRounds allPlayers allMatches start rule: searchTarget.induct)
  case (1 boards totalRounds allPlayers allMatches target)
  from "1.prems" have pos: "0 \<le> target"
    by (subst (asm) searchTarget.simps) (simp split: if_splits)
  obtain s e where tb: "tryBuild boards totalRounds allPlayers allMatches target = (s, e)"
    by (cases "tryBuild boards totalRounds allPlayers allMatches target")
  show ?case
  proof (cases e)
    case True
    with "1.prems" pos tb have ts: "t = target" "sched = s"
      by (subst (asm) searchTarget.simps, simp)+
    then have "target = t + of_nat 0" by simp
    then have "\<exists>k::nat. target = t + of_nat k" by (rule exI)
    moreover have "\<not> t + of_nat (Suc j) \<le> target" for j
      using ts by simp
    ultimately show ?thesis
      using ts True tb pos by simp
  next
    case False
    with "1.prems" pos tb
    have "searchTarget boards totalRounds allPlayers allMatches (target - 1) = Some (t, sched)"
      by (subst (asm) searchTarget.simps) simp
    from "1.IH" [OF pos tb [symmetric] _ this] False
    have ih: "0 \<le> t" "\<exists>k::nat. target - 1 = t + of_nat k"
      "sched = fst (tryBuild boards totalRounds allPlayers allMatches t)"
      "snd (tryBuild boards totalRounds allPlayers allMatches t)"
      "\<forall>j::nat. t + of_nat (Suc j) \<le> target - 1
         \<longrightarrow> \<not> snd (tryBuild boards totalRounds allPlayers allMatches (t + of_nat (Suc j)))"
      by simp_all
    from ih(2) obtain k :: nat where k: "target - 1 = t + of_nat k" ..
    then have "target = t + of_nat (Suc k)" by simp
    then have ex: "\<exists>k::nat. target = t + of_nat k" by (rule exI)
    have "\<not> snd (tryBuild boards totalRounds allPlayers allMatches (t + of_nat (Suc j)))"
      if "t + of_nat (Suc j) \<le> target" for j
    proof (cases "t + of_nat (Suc j) = target")
      case True
      with tb False show ?thesis by simp
    next
      case False
      with that k have "(of_nat (Suc j) :: rat) < of_nat (Suc k)" by simp
      then have "Suc j < Suc k" by (simp only: of_nat_less_iff)
      then have "(of_nat (Suc j) :: rat) \<le> of_nat k" by (simp only: of_nat_le_iff less_Suc_eq_le)
      with k have "t + of_nat (Suc j) \<le> target - 1" by simp
      with ih(5) show ?thesis by blast
    qed
    with ih ex show ?thesis by blast
  qed
qed


subsection \<open>buildGlobalSchedule: the returned schedule\<close>

lemma atLeastOne_ge: "1 \<le> atLeastOne x"
  by (simp add: atLeastOne_def)

lemma attemptSchedule_eq:
  "attemptSchedule gr b r t =
     schedule (buildRounds (atLeastOne b) (nat \<lfloor>atLeastOne r\<rfloor>)
       (allMatchesOf (map groupPlayers gr)) t)"
  by (simp add: attemptSchedule_def tryBuild_schedule)

text \<open>
  Where the search stops. The start target is the least of the code's caps, which are
  not negative: a group of one player or none caps the target at 0, and the attempt at
  0 succeeds with all rounds empty whenever there is a player.
\<close>

lemma perfectAt_nat:
  assumes "perfectAt gr b r t" and "playersIn gr \<noteq> []"
  shows "\<exists>n::nat. t = of_nat n"
proof -
  from assms(2) obtain p where "p \<in> set (playersIn gr)"
    by (cases "playersIn gr") auto
  with assms(1) have "of_nat (appearances p (attemptSchedule gr b r t)) = t"
    by (simp add: perfectAt_def)
  then have "t = of_nat (appearances p (attemptSchedule gr b r t))" by (rule sym)
  then show ?thesis by (rule exI)
qed

lemma foundTarget_Some:
  assumes "foundTarget gr b r = Some (t, sched)"
  shows "0 \<le> t"
    and "t \<le> startTarget (atLeastOne b) (atLeastOne r) (map groupPlayers gr) (playersIn gr)"
    and "sched = attemptSchedule gr b r t"
    and "playersIn gr \<noteq> []"
    and "perfectAt gr b r t"
    and "\<And>t'. t < t' \<Longrightarrow> t' \<le> startTarget (atLeastOne b) (atLeastOne r) (map groupPlayers gr) (playersIn gr)
           \<Longrightarrow> \<not> perfectAt gr b r t'"
proof -
  let ?start = "startTarget (atLeastOne b) (atLeastOne r) (map groupPlayers gr) (playersIn gr)"
  from assms have "searchTarget (atLeastOne b) (atLeastOne r) (playersIn gr)
      (allMatchesOf (map groupPlayers gr)) ?start = Some (t, sched)"
    by (simp add: foundTarget_def Let_def playersIn_def)
  from searchTarget_Some [OF this]
  have s: "0 \<le> t" "\<exists>k::nat. ?start = t + of_nat k"
    "sched = fst (tryBuild (atLeastOne b) (atLeastOne r) (playersIn gr) (allMatchesOf (map groupPlayers gr)) t)"
    "snd (tryBuild (atLeastOne b) (atLeastOne r) (playersIn gr) (allMatchesOf (map groupPlayers gr)) t)"
    "\<forall>j::nat. t + of_nat (Suc j) \<le> ?start \<longrightarrow>
       \<not> snd (tryBuild (atLeastOne b) (atLeastOne r) (playersIn gr) (allMatchesOf (map groupPlayers gr))
              (t + of_nat (Suc j)))"
    by simp_all
  show "0 \<le> t" by (rule s)
  from s(2) obtain k :: nat where "?start = t + of_nat k" ..
  then show "t \<le> ?start" by simp
  show "sched = attemptSchedule gr b r t"
    using s(3) by (simp add: attemptSchedule_def)
  show ne: "playersIn gr \<noteq> []"
    using s(4) by (simp add: tryBuild_equal)
  show perfect: "perfectAt gr b r t"
    using s(4) by (simp add: tryBuild_equal perfectAt_def attemptSchedule_eq)
  show "\<not> perfectAt gr b r t'" if "t < t'" "t' \<le> ?start" for t'
  proof
    assume p': "perfectAt gr b r t'"
    from perfectAt_nat [OF perfect ne] obtain n :: nat where n: "t = of_nat n" ..
    from perfectAt_nat [OF p' ne] obtain n' :: nat where n': "t' = of_nat n'" ..
    from that(1) n n' have "n < n'" by simp
    then obtain j where "n' = n + Suc j"
      by (auto simp: less_iff_Suc_add)
    with n n' have t': "t' = t + of_nat (Suc j)" by simp
    with that(2) s(5) have "\<not> snd (tryBuild (atLeastOne b) (atLeastOne r) (playersIn gr)
        (allMatchesOf (map groupPlayers gr)) t')"
      by blast
    with p' ne show False
      by (simp add: tryBuild_equal perfectAt_def attemptSchedule_eq)
  qed
qed

lemma buildGlobalSchedule_cases:
  "buildGlobalSchedule gr b r = replicate (nat \<lfloor>atLeastOne r\<rfloor>) []
   \<or> (\<exists>t. foundTarget gr b r = Some (t, attemptSchedule gr b r t)
          \<and> buildGlobalSchedule gr b r = attemptSchedule gr b r t)"
proof (cases "foundTarget gr b r")
  case None
  then show ?thesis by (simp add: buildGlobalSchedule_def)
next
  case (Some a)
  obtain t sched where a: "a = (t, sched)" by (cases a)
  from foundTarget_Some(3) [of gr b r t sched] Some a have "sched = attemptSchedule gr b r t"
    by simp
  with Some a show ?thesis by (simp add: buildGlobalSchedule_def)
qed

lemma length_buildGlobalSchedule:
  "length (buildGlobalSchedule gr b r) = nat \<lfloor>atLeastOne r\<rfloor>"
  using buildGlobalSchedule_cases [of gr b r] by (auto simp: attemptSchedule_eq)




text \<open>
  An example: four players in one group, as \<open>roundRobinPairs\<close> pairs them, on two
  boards in three rounds. The search stops at its first target, 3.
\<close>

lemma four_players_found:
  "foundTarget
     [[[(''P1'', ''P4''), (''P2'', ''P3'')], [(''P1'', ''P3''), (''P2'', ''P4'')],
       [(''P1'', ''P4''), (''P2'', ''P3'')]]] (Num 2) (Num 3) =
   Some (3,
     [[\<lparr>A = ''P1'', B = ''P4'', group = 1, round = 1, board = 1\<rparr>,
       \<lparr>A = ''P2'', B = ''P3'', group = 1, round = 1, board = 2\<rparr>],
      [\<lparr>A = ''P1'', B = ''P2'', group = 1, round = 2, board = 1\<rparr>,
       \<lparr>A = ''P4'', B = ''P3'', group = 1, round = 2, board = 2\<rparr>],
      [\<lparr>A = ''P1'', B = ''P3'', group = 1, round = 3, board = 1\<rparr>,
       \<lparr>A = ''P4'', B = ''P2'', group = 1, round = 3, board = 2\<rparr>]])"
  by code_simp

lemma four_players_schedule:
  "buildGlobalSchedule
     [[[(''P1'', ''P4''), (''P2'', ''P3'')], [(''P1'', ''P3''), (''P2'', ''P4'')],
       [(''P1'', ''P4''), (''P2'', ''P3'')]]] (Num 2) (Num 3) =
     [[\<lparr>A = ''P1'', B = ''P4'', group = 1, round = 1, board = 1\<rparr>,
       \<lparr>A = ''P2'', B = ''P3'', group = 1, round = 1, board = 2\<rparr>],
      [\<lparr>A = ''P1'', B = ''P2'', group = 1, round = 2, board = 1\<rparr>,
       \<lparr>A = ''P4'', B = ''P3'', group = 1, round = 2, board = 2\<rparr>],
      [\<lparr>A = ''P1'', B = ''P3'', group = 1, round = 3, board = 1\<rparr>,
       \<lparr>A = ''P4'', B = ''P2'', group = 1, round = 3, board = 2\<rparr>]]"
  by (simp add: buildGlobalSchedule_def four_players_found)




text \<open>
  C2. In every schedule that \<open>buildGlobalSchedule\<close> returns, the unordered pairs of
  players of the matches, taken over all rounds, are all different: no pair meets twice.
\<close>

theorem buildGlobalSchedule_no_rematch: "distinct (map pairSet (concat (buildGlobalSchedule gr b r)))"
proof -
  have "distinct (map pairSet (concat (attemptSchedule gr b r t)))" for t
    unfolding attemptSchedule_eq
    by (rule no_rematch) (simp add: allMatchesOf_groupPlayers)
  with buildGlobalSchedule_cases [of gr b r] show ?thesis
    by auto
qed

theorem buildGlobalSchedule_no_rematch_witness:
  "distinct (map pairSet (concat (buildGlobalSchedule
     [[[(''P1'', ''P4''), (''P2'', ''P3'')], [(''P1'', ''P3''), (''P2'', ''P4'')],
       [(''P1'', ''P4''), (''P2'', ''P3'')]]] (Num 2) (Num 3))))
   \<and> length (concat (buildGlobalSchedule
     [[[(''P1'', ''P4''), (''P2'', ''P3'')], [(''P1'', ''P3''), (''P2'', ''P4'')],
       [(''P1'', ''P4''), (''P2'', ''P3'')]]] (Num 2) (Num 3))) = 6"
  using buildGlobalSchedule_no_rematch
    [of "[[[(''P1'', ''P4''), (''P2'', ''P3'')], [(''P1'', ''P3''), (''P2'', ''P4'')],
       [(''P1'', ''P4''), (''P2'', ''P3'')]]]" "Num 2" "Num 3"]
  by (simp add: four_players_schedule)


lemma buildGlobalSchedule_roundOk:
  "\<forall>rnd \<in> set (buildGlobalSchedule gr b r). roundOk (atLeastOne b) rnd"
proof -
  have nn: "0 \<le> atLeastOne b"
    by (rule order_trans [OF zero_le_one atLeastOne_ge])
  then have "\<forall>rnd \<in> set (attemptSchedule gr b r t). roundOk (atLeastOne b) rnd" for t
    unfolding attemptSchedule_eq
    by (intro rounds_ok) (simp add: allMatchesOf_groupPlayers)
  moreover have "roundOk (atLeastOne b) []"
    using nn by (simp add: roundOk_def)
  ultimately show ?thesis
    using buildGlobalSchedule_cases [of gr b r] by auto
qed

text \<open>
  With no player twice in a round, a player's appearances are the matches the player is
  in.
\<close>

lemma appearances_matches:
  "appearances p (buildGlobalSchedule gr b r)
     = length (filter (\<lambda>m. A m = p \<or> B m = p) (concat (buildGlobalSchedule gr b r)))"
proof -
  have "A m \<noteq> B m" if "m \<in> set (concat (buildGlobalSchedule gr b r))" for m
  proof -
    from that obtain rnd where "rnd \<in> set (buildGlobalSchedule gr b r)" "m \<in> set rnd"
      by auto
    with buildGlobalSchedule_roundOk [of gr b r] show ?thesis
      by (auto simp: roundOk_def dest: distinct_playersOf_two)
  qed
  then show ?thesis
    unfolding appearances_def by (intro count_players_matches) simp
qed

text \<open>
  An example with a board count that is not whole: six players in one group, as
  \<open>buildGroupPairings\<close> pairs them, on 2.5 boards in two rounds. The loop leaves a round
  when its length is at least 2.5, so it stops at three matches.
\<close>

lemma six_players_schedule:
  "buildGlobalSchedule (buildGroupPairings [[''P1'', ''P2'', ''P3'', ''P4'', ''P5'', ''P6'']]) (Num (5 / 2)) (Num 2) =
     [[\<lparr>A = ''P1'', B = ''P6'', group = 1, round = 1, board = 1\<rparr>,
       \<lparr>A = ''P2'', B = ''P5'', group = 1, round = 1, board = 2\<rparr>,
       \<lparr>A = ''P3'', B = ''P4'', group = 1, round = 1, board = 3\<rparr>],
      []]"
  by code_simp

lemma atLeastOne_fraction: "atLeastOne (Num (5 / 2)) = 5 / 2"
  by (simp add: atLeastOne_def orOne_def)

text \<open>
  C3, as claimed, fails for a board count that is not whole: on 2.5 boards the first
  round of the six players has three matches.
\<close>

theorem buildGlobalSchedule_round_over_board_count:
  "hd (buildGlobalSchedule (buildGroupPairings [[''P1'', ''P2'', ''P3'', ''P4'', ''P5'', ''P6'']]) (Num (5 / 2)) (Num 2))
     \<in> set (buildGlobalSchedule (buildGroupPairings [[''P1'', ''P2'', ''P3'', ''P4'', ''P5'', ''P6'']]) (Num (5 / 2)) (Num 2))
   \<and> atLeastOne (Num (5 / 2))
       < of_nat (length (hd (buildGlobalSchedule (buildGroupPairings [[''P1'', ''P2'', ''P3'', ''P4'', ''P5'', ''P6'']]) (Num (5 / 2)) (Num 2))))"
  by (simp add: six_players_schedule atLeastOne_fraction)

lemma whole_atLeastOne:
  assumes "whole b"
  shows "of_int \<lceil>atLeastOne b\<rceil> = atLeastOne b"
proof (cases b)
  case NaN
  then show ?thesis by (simp add: atLeastOne_def orOne_def)
next
  case (Num q)
  with assms have "of_int \<lfloor>q\<rfloor> = q" by (simp add: whole_def)
  then obtain z :: int where "q = of_int z" by (rule sym [THEN that])
  then have "atLeastOne b = of_int (max 1 (if z = 0 then 1 else z))"
    using Num by (simp add: atLeastOne_def orOne_def max_def)
  then show ?thesis by (simp only: ceiling_of_int)
qed

text \<open>
  C3, amended. In every round of a schedule that \<open>buildGlobalSchedule\<close> returns, no
  player appears twice, there are at most as many matches as the coerced board count
  rounded up to a whole number (so at most the coerced board count when that is whole),
  and the boards are 1, 2, ... in the order in which the matches were selected.
\<close>

theorem buildGlobalSchedule_rounds:
  "\<forall>rnd \<in> set (buildGlobalSchedule gr b r).
     distinct (playersOf rnd)
     \<and> int (length rnd) \<le> \<lceil>atLeastOne b\<rceil>
     \<and> (whole b \<longrightarrow> of_nat (length rnd) \<le> atLeastOne b)
     \<and> map board rnd = [1..<length rnd + 1]"
proof
  fix rnd assume "rnd \<in> set (buildGlobalSchedule gr b r)"
  with buildGlobalSchedule_roundOk [of gr b r] have ok: "roundOk (atLeastOne b) rnd"
    by blast
  then have le: "int (length rnd) \<le> \<lceil>atLeastOne b\<rceil>"
    by (simp add: roundOk_def)
  have "of_nat (length rnd) \<le> atLeastOne b" if "whole b"
  proof -
    from le have "(of_int (int (length rnd)) :: rat) \<le> of_int \<lceil>atLeastOne b\<rceil>"
      by (simp only: of_int_le_iff)
    then have "(of_nat (length rnd) :: rat) \<le> of_int \<lceil>atLeastOne b\<rceil>"
      by (simp only: of_int_of_nat_eq)
    then show ?thesis
      by (simp only: whole_atLeastOne [OF that])
  qed
  with ok le show "distinct (playersOf rnd)
     \<and> int (length rnd) \<le> \<lceil>atLeastOne b\<rceil>
     \<and> (whole b \<longrightarrow> of_nat (length rnd) \<le> atLeastOne b)
     \<and> map board rnd = [1..<length rnd + 1]"
    unfolding roundOk_def by blast
qed

theorem buildGlobalSchedule_rounds_witness:
  "[\<lparr>A = ''P1'', B = ''P2'', group = 1, round = 2, board = 1\<rparr>,
    \<lparr>A = ''P4'', B = ''P3'', group = 1, round = 2, board = 2\<rparr>]
     \<in> set (buildGlobalSchedule
          [[[(''P1'', ''P4''), (''P2'', ''P3'')], [(''P1'', ''P3''), (''P2'', ''P4'')],
            [(''P1'', ''P4''), (''P2'', ''P3'')]]] (Num 2) (Num 3))
   \<and> whole (Num 2)
   \<and> distinct (playersOf
        [\<lparr>A = ''P1'', B = ''P2'', group = 1, round = 2, board = 1\<rparr>,
         \<lparr>A = ''P4'', B = ''P3'', group = 1, round = 2, board = 2\<rparr>])
   \<and> of_nat (length [\<lparr>A = ''P1'', B = ''P2'', group = 1, round = 2, board = 1\<rparr>,
             \<lparr>A = ''P4'', B = ''P3'', group = 1, round = 2, board = 2\<rparr>]) \<le> atLeastOne (Num 2)
   \<and> map board [\<lparr>A = ''P1'', B = ''P2'', group = 1, round = 2, board = 1\<rparr>,
                \<lparr>A = ''P4'', B = ''P3'', group = 1, round = 2, board = 2\<rparr>]
       = [1..<length [\<lparr>A = ''P1'', B = ''P2'', group = 1, round = 2, board = 1\<rparr>,
                      \<lparr>A = ''P4'', B = ''P3'', group = 1, round = 2, board = 2\<rparr>] + 1]
   \<and> [\<lparr>A = ''P1'', B = ''P6'', group = 1, round = 1, board = 1\<rparr>,
       \<lparr>A = ''P2'', B = ''P5'', group = 1, round = 1, board = 2\<rparr>,
       \<lparr>A = ''P3'', B = ''P4'', group = 1, round = 1, board = 3\<rparr>]
     \<in> set (buildGlobalSchedule (buildGroupPairings [[''P1'', ''P2'', ''P3'', ''P4'', ''P5'', ''P6'']]) (Num (5 / 2)) (Num 2))
   \<and> int (length [\<lparr>A = ''P1'', B = ''P6'', group = 1, round = 1, board = 1\<rparr>,
       \<lparr>A = ''P2'', B = ''P5'', group = 1, round = 1, board = 2\<rparr>,
       \<lparr>A = ''P3'', B = ''P4'', group = 1, round = 1, board = 3\<rparr>])
       \<le> \<lceil>atLeastOne (Num (5 / 2))\<rceil>"
proof -
  let ?gr = "[[[(''P1'', ''P4''), (''P2'', ''P3'')], [(''P1'', ''P3''), (''P2'', ''P4'')],
       [(''P1'', ''P4''), (''P2'', ''P3'')]]]"
  let ?rnd = "[\<lparr>A = ''P1'', B = ''P2'', group = 1, round = 2, board = 1\<rparr>,
    \<lparr>A = ''P4'', B = ''P3'', group = 1, round = 2, board = 2\<rparr>]"
  let ?six = "buildGroupPairings [[''P1'', ''P2'', ''P3'', ''P4'', ''P5'', ''P6'']]"
  let ?rnd' = "[\<lparr>A = ''P1'', B = ''P6'', group = 1, round = 1, board = 1\<rparr>,
       \<lparr>A = ''P2'', B = ''P5'', group = 1, round = 1, board = 2\<rparr>,
       \<lparr>A = ''P3'', B = ''P4'', group = 1, round = 1, board = 3\<rparr>]"
  have mem: "?rnd \<in> set (buildGlobalSchedule ?gr (Num 2) (Num 3))"
    by (simp add: four_players_schedule)
  have w: "whole (Num 2)"
    by (simp add: whole_def)
  have mem': "?rnd' \<in> set (buildGlobalSchedule ?six (Num (5 / 2)) (Num 2))"
    by (simp add: six_players_schedule)
  from bspec [OF buildGlobalSchedule_rounds [of ?gr "Num 2" "Num 3"] mem]
    bspec [OF buildGlobalSchedule_rounds [of ?six "Num (5 / 2)" "Num 2"] mem'] mem w mem'
  show ?thesis by blast
qed


subsection \<open>buildGlobalSchedule: the order of the candidates\<close>

















subsection \<open>Empty and coerced inputs\<close>






lemma split_one_group:
  "fold (\<lambda>(i, p) result.
           case result of Inl e \<Rightarrow> Inl e | Inr groups \<Rightarrow> pushTo (remainder i 1) p groups)
     (enumerate n ps) (Inr [acc]) = Inr [acc @ ps]"
  by (induction ps arbitrary: n acc) (simp_all add: remainder_def pushTo_def)

lemma atLeastOne_coerces:
  assumes "x = NaN \<or> (\<exists>q. x = Num q \<and> q \<le> 0)"
  shows "atLeastOne x = 1"
  using assms by (auto simp: atLeastOne_def orOne_def)



text \<open>
  A group count that is not whole: 2.5 makes two groups, and the third player has the
  remainder 2, where there is no group.
\<close>

lemma splitIntoGroups_fraction:
  "splitIntoGroups [''a'', ''b''] (Num (5 / 2)) = Inr [[''a''], [''b'']]
   \<and> splitIntoGroups [''a'', ''b'', ''c''] (Num (5 / 2)) = Inl TypeError"
  by code_simp







text \<open>
  C8. A board count, round count or group count that is not a number, or is zero or
  negative, is coerced to 1: \<open>buildGlobalSchedule\<close> and \<open>splitIntoGroups\<close> return what
  they return for the count 1 (one round; one group of all the players, with no error).
  Both are total functions of their arguments.
\<close>

theorem nonpositive_counts_coerced_to_one:
  assumes "x = NaN \<or> (\<exists>q. x = Num q \<and> q \<le> 0)"
  shows "atLeastOne x = 1
    \<and> buildGlobalSchedule gr x r = buildGlobalSchedule gr (Num 1) r
    \<and> buildGlobalSchedule gr b x = buildGlobalSchedule gr b (Num 1)
    \<and> length (buildGlobalSchedule gr b x) = 1
    \<and> splitIntoGroups players x = splitIntoGroups players (Num 1)
    \<and> splitIntoGroups players x = Inr [players]"
proof -
  have one: "atLeastOne x = 1" by (rule atLeastOne_coerces [OF assms])
  have one': "atLeastOne (Num 1) = 1" by (simp add: atLeastOne_def orOne_def)
  have "foundTarget gr x r = foundTarget gr (Num 1) r"
    and "foundTarget gr b x = foundTarget gr b (Num 1)"
    by (simp_all add: foundTarget_def one one')
  then have "buildGlobalSchedule gr x r = buildGlobalSchedule gr (Num 1) r"
    and "buildGlobalSchedule gr b x = buildGlobalSchedule gr b (Num 1)"
    unfolding buildGlobalSchedule_def by (simp_all only: one one')
  then have "buildGlobalSchedule gr x r = buildGlobalSchedule gr (Num 1) r
      \<and> buildGlobalSchedule gr b x = buildGlobalSchedule gr b (Num 1)"
    by simp
  moreover have "length (buildGlobalSchedule gr b x) = 1"
    by (simp add: length_buildGlobalSchedule one)
  moreover have "splitIntoGroups players x = Inr [players]"
    using split_one_group [of 0 players "[]"] by (simp add: splitIntoGroups_def one)
  moreover have "splitIntoGroups players (Num 1) = Inr [players]"
    using split_one_group [of 0 players "[]"] by (simp add: splitIntoGroups_def one')
  ultimately show ?thesis using one by simp
qed

theorem nonpositive_counts_coerced_to_one_witness:
  "atLeastOne NaN = 1 \<and> atLeastOne (Num (- 2)) = 1
   \<and> buildGlobalSchedule [[[(''a'', ''b'')]]] NaN (Num (- 2)) = buildGlobalSchedule [[[(''a'', ''b'')]]] (Num 1) (Num 1)
   \<and> buildGlobalSchedule [[[(''a'', ''b'')]]] NaN (Num (- 2))
       = [[\<lparr>A = ''a'', B = ''b'', group = 1, round = 1, board = 1\<rparr>]]
   \<and> splitIntoGroups [''a'', ''b'', ''c''] (Num 0) = Inr [[''a'', ''b'', ''c'']]"
proof -
  have nan: "NaN = NaN \<or> (\<exists>q. NaN = Num q \<and> q \<le> 0)" by simp
  have neg: "Num (- 2) = NaN \<or> (\<exists>q. Num (- 2) = Num q \<and> q \<le> 0)" by simp
  have zero: "Num 0 = NaN \<or> (\<exists>q. Num 0 = Num q \<and> q \<le> 0)" by simp
  have ev: "buildGlobalSchedule [[[(''a'', ''b'')]]] (Num 1) (Num 1)
      = [[\<lparr>A = ''a'', B = ''b'', group = 1, round = 1, board = 1\<rparr>]]"
    by code_simp
  from nonpositive_counts_coerced_to_one [OF nan, of "[[[(''a'', ''b'')]]]" "Num (- 2)"]
  have a: "atLeastOne NaN = 1"
    and b: "buildGlobalSchedule [[[(''a'', ''b'')]]] NaN (Num (- 2))
      = buildGlobalSchedule [[[(''a'', ''b'')]]] (Num 1) (Num (- 2))"
    by blast+
  from nonpositive_counts_coerced_to_one [OF neg, of "[[[(''a'', ''b'')]]]" _ "Num 1"]
  have c: "atLeastOne (Num (- 2)) = 1"
    and d: "buildGlobalSchedule [[[(''a'', ''b'')]]] (Num 1) (Num (- 2))
      = buildGlobalSchedule [[[(''a'', ''b'')]]] (Num 1) (Num 1)"
    by blast+
  from nonpositive_counts_coerced_to_one [OF zero, of _ _ _ "[''a'', ''b'', ''c'']"]
  have e: "splitIntoGroups [''a'', ''b'', ''c''] (Num 0) = Inr [[''a'', ''b'', ''c'']]"
    by blast
  from a b c d e ev show ?thesis by simp
qed

subsection \<open>rebalanceBoards: one swap, one pass, one round\<close>

lemma sum_map_update:
  fixes f :: "'a \<Rightarrow> nat"
  shows "i < length xs \<Longrightarrow> sum_list (map f (xs[i := x])) + f (xs ! i) = sum_list (map f xs) + f x"
proof (induction xs arbitrary: i)
  case Nil
  then show ?case by simp
next
  case (Cons y ys)
  then show ?case by (cases i) (simp_all add: add.assoc add.left_commute)
qed

lemma roundConflict_swap:
  assumes "i < length ms" "j < length ms" "i \<noteq> j"
  shows "roundConflict lb (ms[i := x, j := y]) + conflictForMatch lb (ms ! i) + conflictForMatch lb (ms ! j)
         = roundConflict lb ms + conflictForMatch lb x + conflictForMatch lb y"
proof -
  have "sum_list (map (conflictForMatch lb) ((ms[i := x])[j := y])) + conflictForMatch lb ((ms[i := x]) ! j)
        = sum_list (map (conflictForMatch lb) (ms[i := x])) + conflictForMatch lb y"
    using assms by (intro sum_map_update) simp
  moreover have "(ms[i := x]) ! j = ms ! j"
    using assms by simp
  moreover have "sum_list (map (conflictForMatch lb) (ms[i := x])) + conflictForMatch lb (ms ! i)
        = sum_list (map (conflictForMatch lb) ms) + conflictForMatch lb x"
    using assms by (intro sum_map_update)
  ultimately show ?thesis
    unfolding roundConflict_def by simp
qed

lemma trySwap_cases:
  "trySwap lb i j (ms, imp) = (ms, imp) \<or>
   (trySwap lb i j (ms, imp) = (swapped ms i j, True) \<and>
    conflictForMatch lb ((ms ! i)\<lparr>board := board (ms ! j)\<rparr>) + conflictForMatch lb ((ms ! j)\<lparr>board := board (ms ! i)\<rparr>)
      < conflictForMatch lb (ms ! i) + conflictForMatch lb (ms ! j))"
  by (simp add: trySwap_def Let_def swapped_def)

lemma roundConflict_trySwap:
  assumes "i < j" "j < length ms"
  shows "roundConflict lb (fst (trySwap lb i j (ms, imp))) \<le> roundConflict lb ms"
proof -
  from trySwap_cases [of lb i j ms imp] show ?thesis
  proof
    assume "trySwap lb i j (ms, imp) = (ms, imp)"
    then show ?thesis by simp
  next
    assume h: "trySwap lb i j (ms, imp) = (swapped ms i j, True) \<and>
      conflictForMatch lb ((ms ! i)\<lparr>board := board (ms ! j)\<rparr>) + conflictForMatch lb ((ms ! j)\<lparr>board := board (ms ! i)\<rparr>)
      < conflictForMatch lb (ms ! i) + conflictForMatch lb (ms ! j)"
    have "roundConflict lb (swapped ms i j) + conflictForMatch lb (ms ! i) + conflictForMatch lb (ms ! j)
         = roundConflict lb ms + conflictForMatch lb ((ms ! i)\<lparr>board := board (ms ! j)\<rparr>) + conflictForMatch lb ((ms ! j)\<lparr>board := board (ms ! i)\<rparr>)"
      unfolding swapped_def using assms by (intro roundConflict_swap) simp_all
    with h show ?thesis by simp
  qed
qed

lemma map_update_same: "f x = f (xs ! i) \<Longrightarrow> map f (xs[i := x]) = map f xs"
  by (induction xs arbitrary: i) (auto split: nat.splits)

lemma withoutBoard_swapped: "map withoutBoard (swapped ms i j) = map withoutBoard ms"
proof (cases "i = j")
  case True
  then show ?thesis
    by (simp add: swapped_def withoutBoard_def map_update_same)
next
  case False
  have "map withoutBoard (ms[i := (ms ! i)\<lparr>board := board (ms ! j)\<rparr>]) = map withoutBoard ms"
    by (rule map_update_same) (simp add: withoutBoard_def)
  moreover have "map withoutBoard ((ms[i := (ms ! i)\<lparr>board := board (ms ! j)\<rparr>])[j := (ms ! j)\<lparr>board := board (ms ! i)\<rparr>])
      = map withoutBoard (ms[i := (ms ! i)\<lparr>board := board (ms ! j)\<rparr>])"
    using False by (intro map_update_same) (simp add: withoutBoard_def)
  ultimately show ?thesis by (simp add: swapped_def)
qed

lemma withoutBoard_trySwap: "map withoutBoard (fst (trySwap lb i j s)) = map withoutBoard (fst s)"
proof (cases s)
  case (Pair ms imp)
  with trySwap_cases [of lb i j ms imp] show ?thesis
    by (auto simp: withoutBoard_swapped)
qed

lemma length_trySwap: "length (fst (trySwap lb i j s)) = length (fst s)"
  using withoutBoard_trySwap [of lb i j s, THEN arg_cong, of length] by simp

lemma pairIndices_bounds: "(i, j) \<in> set (pairIndices n) \<Longrightarrow> i < j \<and> j < n"
  by (auto simp: pairIndices_def)

lemma fold_trySwap:
  assumes "\<forall>(i, j) \<in> set ps. i < j \<and> j < length (fst s)"
  shows "roundConflict lb (fst (fold (\<lambda>(i, j). trySwap lb i j) ps s)) \<le> roundConflict lb (fst s)
       \<and> map withoutBoard (fst (fold (\<lambda>(i, j). trySwap lb i j) ps s)) = map withoutBoard (fst s)"
  using assms
proof (induction ps arbitrary: s)
  case Nil
  then show ?case by simp
next
  case (Cons p ps)
  obtain i j where p: "p = (i, j)" by (cases p)
  obtain ms imp where s: "s = (ms, imp)" by (cases s)
  let ?s' = "trySwap lb i j s"
  have len: "length (fst ?s') = length (fst s)" by (rule length_trySwap)
  have b: "i < j" "j < length ms" using Cons.prems p s by auto
  have "\<forall>(i, j) \<in> set ps. i < j \<and> j < length (fst ?s')"
    using Cons.prems len by auto
  from Cons.IH [OF this]
  have "roundConflict lb (fst (fold (\<lambda>(i, j). trySwap lb i j) ps ?s')) \<le> roundConflict lb (fst ?s')"
    and "map withoutBoard (fst (fold (\<lambda>(i, j). trySwap lb i j) ps ?s')) = map withoutBoard (fst ?s')"
    by simp_all
  moreover have "roundConflict lb (fst ?s') \<le> roundConflict lb (fst s)"
    using roundConflict_trySwap [OF b, of lb imp] s by simp
  moreover have "map withoutBoard (fst ?s') = map withoutBoard (fst s)"
    by (rule withoutBoard_trySwap)
  ultimately show ?case by (simp add: p)
qed

lemma swapPass_props:
  "roundConflict lb (fst (swapPass lb ms)) \<le> roundConflict lb ms
   \<and> map withoutBoard (fst (swapPass lb ms)) = map withoutBoard ms"
proof -
  have "\<forall>(i, j) \<in> set (pairIndices (length ms)). i < j \<and> j < length (fst (ms, False))"
    using pairIndices_bounds by auto
  from fold_trySwap [OF this, of lb] show ?thesis
    by (simp add: swapPass_def)
qed

lemma swapLoop_props:
  "roundConflict lb (fst (swapLoop lb ms imp g)) \<le> roundConflict lb ms
   \<and> map withoutBoard (fst (swapLoop lb ms imp g)) = map withoutBoard ms
   \<and> (g \<le> 10 \<longrightarrow> snd (swapLoop lb ms imp g) \<le> 10)
   \<and> g \<le> snd (swapLoop lb ms imp g)"
proof (induction lb ms imp g rule: swapLoop.induct)
  case (1 lb ms imp g)
  show ?case
  proof (cases "imp \<and> g < 10")
    case True
    obtain ms' imp' where sp: "swapPass lb ms = (ms', imp')" by (cases "swapPass lb ms")
    from "1.IH" [OF True sp [symmetric]]
    have ih: "roundConflict lb (fst (swapLoop lb ms' imp' (g + 1))) \<le> roundConflict lb ms'"
      "map withoutBoard (fst (swapLoop lb ms' imp' (g + 1))) = map withoutBoard ms'"
      "snd (swapLoop lb ms' imp' (g + 1)) \<le> 10"
      "g + 1 \<le> snd (swapLoop lb ms' imp' (g + 1))"
      using True by simp_all
    have eq: "swapLoop lb ms imp g = swapLoop lb ms' imp' (g + 1)"
      using True sp by (subst swapLoop.simps) simp
    from swapPass_props [of lb ms] sp
    have "roundConflict lb ms' \<le> roundConflict lb ms" "map withoutBoard ms' = map withoutBoard ms"
      by simp_all
    with ih eq show ?thesis by simp
  next
    case False
    then have "swapLoop lb ms imp g = (ms, g)"
      by (subst swapLoop.simps) auto
    then show ?thesis by simp
  qed
qed

lemma swapped_others: "k \<noteq> i \<Longrightarrow> k \<noteq> j \<Longrightarrow> swapped ms i j ! k = ms ! k"
  by (simp add: swapped_def)

lemma swapped_at:
  assumes "i < j" "j < length ms"
  shows "swapped ms i j ! i = (ms ! i)\<lparr>board := board (ms ! j)\<rparr>"
    and "swapped ms i j ! j = (ms ! j)\<lparr>board := board (ms ! i)\<rparr>"
  using assms by (simp_all add: swapped_def)

subsection \<open>rebalanceBoards: the schedule\<close>

lemma rebalanceFrom_withoutBoard:
  "map (map withoutBoard) (rebalanceFrom lb sched) = map (map withoutBoard) sched"
proof (induction sched arbitrary: lb)
  case Nil
  then show ?case by simp
next
  case (Cons ms rounds)
  from swapLoop_props [of lb ms True 0]
  have "map withoutBoard (fst (swapLoop lb ms True 0)) = map withoutBoard ms"
    by simp
  with Cons.IH show ?case
    by (simp add: Let_def)
qed

text \<open>
  C5. \<open>rebalanceBoards\<close> returns as many rounds as it was given, and in every round the
  same matches in the same places, each with its round number, its two players and its
  group unchanged: nothing but board numbers can differ.
\<close>

theorem rebalanceBoards_changes_boards_only:
  "length (rebalanceBoards sched) = length sched
   \<and> map length (rebalanceBoards sched) = map length sched
   \<and> map (map withoutBoard) (rebalanceBoards sched) = map (map withoutBoard) sched"
proof -
  have eq: "map (map withoutBoard) (rebalanceBoards sched) = map (map withoutBoard) sched"
    unfolding rebalanceBoards_def by (rule rebalanceFrom_withoutBoard)
  from arg_cong [OF eq, of length] have len: "length (rebalanceBoards sched) = length sched"
    by simp
  from arg_cong [OF eq, of "map length"]
  have "map length (rebalanceBoards sched) = map length sched"
    by (simp add: comp_def)
  with eq len show ?thesis by simp
qed

text \<open>
  C10. Within one round, against the fixed \<open>lastBoard\<close> of the rounds already finalized:
  a step of the swap loop on the matches at \<open>i < j\<close> never raises the round's conflict
  sum; it either leaves the round as it was, or exchanges the two boards, and then the
  two matches' combined conflict is strictly smaller; every other match is untouched.
  So a pass and the whole loop never raise the sum, and the loop makes at most 10 passes.
\<close>

theorem swap_loop_never_raises_round_conflict:
  assumes "i < j" and "j < length ms"
  shows "roundConflict lastBoard (fst (trySwap lastBoard i j (ms, improved))) \<le> roundConflict lastBoard ms
    \<and> (trySwap lastBoard i j (ms, improved) = (ms, improved)
        \<or> trySwap lastBoard i j (ms, improved) = (swapped ms i j, True)
          \<and> conflictForMatch lastBoard (swapped ms i j ! i) + conflictForMatch lastBoard (swapped ms i j ! j)
              < conflictForMatch lastBoard (ms ! i) + conflictForMatch lastBoard (ms ! j))
    \<and> (\<forall>k. k \<noteq> i \<and> k \<noteq> j \<longrightarrow> fst (trySwap lastBoard i j (ms, improved)) ! k = ms ! k)
    \<and> roundConflict lastBoard (fst (swapPass lastBoard ms)) \<le> roundConflict lastBoard ms
    \<and> roundConflict lastBoard (fst (swapLoop lastBoard ms True 0)) \<le> roundConflict lastBoard ms
    \<and> snd (swapLoop lastBoard ms True 0) \<le> 10"
proof -
  have step: "roundConflict lastBoard (fst (trySwap lastBoard i j (ms, improved))) \<le> roundConflict lastBoard ms"
    by (rule roundConflict_trySwap [OF assms])
  have kept: "trySwap lastBoard i j (ms, improved) = (ms, improved)
        \<or> trySwap lastBoard i j (ms, improved) = (swapped ms i j, True)
          \<and> conflictForMatch lastBoard (swapped ms i j ! i) + conflictForMatch lastBoard (swapped ms i j ! j)
              < conflictForMatch lastBoard (ms ! i) + conflictForMatch lastBoard (ms ! j)"
    using trySwap_cases [of lastBoard i j ms improved] swapped_at [OF assms] by simp
  have others: "\<forall>k. k \<noteq> i \<and> k \<noteq> j \<longrightarrow> fst (trySwap lastBoard i j (ms, improved)) ! k = ms ! k"
    using trySwap_cases [of lastBoard i j ms improved] by (auto simp: swapped_others)
  have pass: "roundConflict lastBoard (fst (swapPass lastBoard ms)) \<le> roundConflict lastBoard ms"
    using swapPass_props [of lastBoard ms] by simp
  have loop: "roundConflict lastBoard (fst (swapLoop lastBoard ms True 0)) \<le> roundConflict lastBoard ms"
    and passes: "snd (swapLoop lastBoard ms True 0) \<le> 10"
    using swapLoop_props [of lastBoard ms True 0] by simp_all
  from step kept others pass loop passes show ?thesis by blast
qed

theorem swap_loop_never_raises_round_conflict_witness:
  "(0::nat) < 1
   \<and> 1 < length [\<lparr>A = ''x'', B = ''y'', group = 1, round = 3, board = 1\<rparr>,
                 \<lparr>A = ''a'', B = ''z'', group = 1, round = 3, board = 2\<rparr>]
   \<and> trySwap [''x'' \<mapsto> 1] 0 1
        ([\<lparr>A = ''x'', B = ''y'', group = 1, round = 3, board = 1\<rparr>,
          \<lparr>A = ''a'', B = ''z'', group = 1, round = 3, board = 2\<rparr>], False)
      = ([\<lparr>A = ''x'', B = ''y'', group = 1, round = 3, board = 2\<rparr>,
          \<lparr>A = ''a'', B = ''z'', group = 1, round = 3, board = 1\<rparr>], True)
   \<and> roundConflict [''x'' \<mapsto> 1]
        (fst (swapLoop [''x'' \<mapsto> 1]
          [\<lparr>A = ''x'', B = ''y'', group = 1, round = 3, board = 1\<rparr>,
           \<lparr>A = ''a'', B = ''z'', group = 1, round = 3, board = 2\<rparr>] True 0))
      \<le> roundConflict [''x'' \<mapsto> 1]
          [\<lparr>A = ''x'', B = ''y'', group = 1, round = 3, board = 1\<rparr>,
           \<lparr>A = ''a'', B = ''z'', group = 1, round = 3, board = 2\<rparr>]
   \<and> snd (swapLoop [''x'' \<mapsto> 1]
          [\<lparr>A = ''x'', B = ''y'', group = 1, round = 3, board = 1\<rparr>,
           \<lparr>A = ''a'', B = ''z'', group = 1, round = 3, board = 2\<rparr>] True 0) \<le> 10"
  using swap_loop_never_raises_round_conflict
    [of 0 1 "[\<lparr>A = ''x'', B = ''y'', group = 1, round = 3, board = 1\<rparr>,
              \<lparr>A = ''a'', B = ''z'', group = 1, round = 3, board = 2\<rparr>]" "[''x'' \<mapsto> 1]" False]
  by (simp add: trySwap_def conflictForMatch_def readBoard_def)

subsection \<open>rebalanceBoards: the whole schedule\<close>

text \<open>
  \<open>lastBoard\<close> is written for the players of a round and never cleared: a player who
  sits a round out keeps the entry of an earlier round.
\<close>

lemma finalizeRound_keeps_absent:
  assumes "\<forall>m \<in> set matches. A m \<noteq> p \<and> B m \<noteq> p"
  shows "readBoard (finalizeRound lastBoard matches) p = readBoard lastBoard p"
proof -
  have "readBoard (fold (\<lambda>m lb. writeBoard (writeBoard lb (A m) (board m)) (B m) (board m)) matches lb) p
      = readBoard lb p" for lb
    using assms by (induction matches arbitrary: lb) (auto simp: readBoard_def writeBoard_def)
  then show ?thesis by (simp add: finalizeRound_def)
qed

text \<open>
  Ten players in one group, 3 boards, 5 rounds: the schedule that \<open>buildGlobalSchedule\<close>
  returns is \<open>tenPlayersFiveRounds\<close>.
\<close>

lemma buildGlobalSchedule_tenPlayersFiveRounds:
  "splitIntoGroups [''P1'', ''P2'', ''P3'', ''P4'', ''P5'', ''P6'', ''P7'', ''P8'', ''P9'', ''P10''] (Num 1)
     = Inr [[''P1'', ''P2'', ''P3'', ''P4'', ''P5'', ''P6'', ''P7'', ''P8'', ''P9'', ''P10'']]
   \<and> buildGlobalSchedule
       (buildGroupPairings [[''P1'', ''P2'', ''P3'', ''P4'', ''P5'', ''P6'', ''P7'', ''P8'', ''P9'', ''P10'']])
       (Num 3) (Num 5) = tenPlayersFiveRounds"
  by code_simp

text \<open>
  Counted against the round before, \<open>tenPlayersFiveRounds\<close> has no conflict and what
  \<open>rebalanceBoards\<close> makes of it has three. Counted as the rebalancer counts, against
  the entries of \<open>lastBoard\<close>, it goes from 6 to 4.
\<close>

lemma rebalanceBoards_tenPlayersFiveRounds:
  "precedingRoundConflict [] tenPlayersFiveRounds = 0
   \<and> precedingRoundConflict [] (rebalanceBoards tenPlayersFiveRounds) = 3
   \<and> totalConflictFrom Map.empty tenPlayersFiveRounds = 6
   \<and> totalConflictFrom Map.empty (rebalanceBoards tenPlayersFiveRounds) = 4"
  by code_simp

text \<open>
  C6. The claim fails on the code, on the schedule that \<open>buildGlobalSchedule\<close> returns
  for ten players in one group, 3 boards and 5 rounds. That schedule has no player on the
  same board in two consecutive rounds: its total conflict score is 0. \<open>P10\<close> and \<open>P8\<close>
  sit round 2 out, so in round 3 the rebalancer still reads their boards of round 1 (3
  and 2, the boards they have in round 3), counts two conflicts, and exchanges boards 1
  and 3; that puts \<open>P7\<close> on the board it had in round 2. The returned schedule has three
  players on the board they had in the round before: the total conflict score rises from
  0 to 3.
\<close>

theorem rebalanceBoards_raises_total_conflict:
  "precedingRoundConflict []
     (buildGlobalSchedule (buildGroupPairings [[''P1'', ''P2'', ''P3'', ''P4'', ''P5'', ''P6'', ''P7'', ''P8'', ''P9'', ''P10'']]) (Num 3) (Num 5)) = 0
   \<and> precedingRoundConflict []
     (rebalanceBoards
        (buildGlobalSchedule (buildGroupPairings [[''P1'', ''P2'', ''P3'', ''P4'', ''P5'', ''P6'', ''P7'', ''P8'', ''P9'', ''P10'']]) (Num 3) (Num 5))) = 3"
  using buildGlobalSchedule_tenPlayersFiveRounds rebalanceBoards_tenPlayersFiveRounds
  by (simp only:)

end
